theory Spec2Isabelle
  imports Main "HOL-Library.AList"
begin

section \<open>Data model\<close>

text \<open>
  The chain of \<^verbatim>\<open>markov_melody_generation.py\<close> works on sequences of hashable
  elements; in the program they are note pairs
  \<^verbatim>\<open>((on_pitch, on_velocity, on_time), (off_pitch, off_velocity, off_time))\<close>.
  The chain itself never looks inside an element, so its embedding is polymorphic in
  the element type.

  A Python \<^verbatim>\<open>dict\<close> keeps its keys in insertion order, and \<^verbatim>\<open>generate\<close> turns
  the keys into a list it indexes at random, so the table is an association list:
  \<^verbatim>\<open>d[k] = v\<close> replaces the value in place when \<^verbatim>\<open>k\<close> is present and appends
  \<^verbatim>\<open>(k, v)\<close> otherwise (\<^const>\<open>AList.update\<close>), and a lookup is \<^const>\<open>map_of\<close>.
\<close>

type_synonym timed_event = "int \<times> int \<times> int"
type_synonym note_pair = "timed_event \<times> timed_event"

type_synonym 'a counter = "('a \<times> nat) list"
type_synonym 'a table = "('a list \<times> 'a counter) list"

record 'a markov_chain =
  order :: nat
  model :: "'a table"

datatype error = ValueError string | IndexError | ZeroDivisionError

text \<open>\<^verbatim>\<open>MarkovChain.__init__\<close>: the order is stored, the table starts empty.\<close>

definition init :: "nat \<Rightarrow> 'a markov_chain" where
  "init n = \<lparr>order = n, model = []\<rparr>"

subsection \<open>Python's decimal rendering of integers in the error messages\<close>

definition digit_char :: "nat \<Rightarrow> char" where
  "digit_char d = ''0123456789'' ! d"

fun str_nat :: "nat \<Rightarrow> string" where
  "str_nat n = (if n < 10 then [digit_char n] else str_nat (n div 10) @ [digit_char (n mod 10)])"

declare str_nat.simps [simp del]

definition str_int :: "int \<Rightarrow> string" where
  "str_int i = (if i < 0 then CHR ''-'' # str_nat (nat (- i)) else str_nat (nat i))"

subsection \<open>Slices\<close>

text \<open>
  \<^verbatim>\<open>xs[i:i + n]\<close> for non-negative \<^verbatim>\<open>i\<close>, \<^verbatim>\<open>n\<close>, and \<^verbatim>\<open>xs[-n:]\<close>. The latter is
  the whole list for \<^verbatim>\<open>n = 0\<close> (Python reads \<^verbatim>\<open>xs[-0:]\<close> as \<^verbatim>\<open>xs[0:]\<close>) and also when
  \<^verbatim>\<open>n\<close> exceeds the length.
\<close>

definition window :: "'a list \<Rightarrow> nat \<Rightarrow> nat \<Rightarrow> 'a list" where
  "window xs i n = take n (drop i xs)"

definition last_n :: "nat \<Rightarrow> 'a list \<Rightarrow> 'a list" where
  "last_n n xs = (if n = 0 then xs else drop (length xs - n) xs)"

section \<open>Training\<close>

text \<open>
  \<^verbatim>\<open>Counter\<close>: a missing key reads as 0 (without being inserted);
  \<^verbatim>\<open>c[x] += 1\<close> stores the old count plus one.
\<close>

definition counter_get :: "'a counter \<Rightarrow> 'a \<Rightarrow> nat" where
  "counter_get c x = (case map_of c x of None \<Rightarrow> 0 | Some n \<Rightarrow> n)"

definition counter_incr :: "'a counter \<Rightarrow> 'a \<Rightarrow> 'a counter" where
  "counter_incr c x = AList.update x (counter_get c x + 1) c"

text \<open>
  \<^verbatim>\<open>self.model[k]\<close> on the \<^verbatim>\<open>defaultdict(Counter)\<close>: an absent key is inserted with
  an empty counter first. The table after the access and the counter found are returned.
\<close>

definition defaultdict_getitem :: "'a table \<Rightarrow> 'a list \<Rightarrow> 'a table \<times> 'a counter" where
  "defaultdict_getitem m k =
     (case map_of m k of
        None \<Rightarrow> (AList.update k [] m, [])
      | Some c \<Rightarrow> (m, c))"

text \<open>\<^verbatim>\<open>self.model[current_state][next_state] += 1\<close>\<close>

definition count_transition :: "'a table \<Rightarrow> 'a list \<Rightarrow> 'a \<Rightarrow> 'a table" where
  "count_transition m k x =
     (let (m1, c) = defaultdict_getitem m k
      in AList.update k (counter_incr c x) m1)"

text \<open>\<^verbatim>\<open>self.model.setdefault(k, Counter())\<close>\<close>

definition setdefault :: "'a table \<Rightarrow> 'a list \<Rightarrow> 'a table" where
  "setdefault m k = (case map_of m k of None \<Rightarrow> AList.update k [] m | Some c \<Rightarrow> m)"

text \<open>
  The body of the counting loop for window start \<open>i\<close>. The loop runs over
  \<^verbatim>\<open>range(sequence_length - self.order)\<close>, so \<open>i + n\<close> is a valid index of the sequence.
\<close>

definition train_step :: "nat \<Rightarrow> 'a list \<Rightarrow> nat \<Rightarrow> 'a table \<Rightarrow> 'a table" where
  "train_step n s i m = count_transition m (window s i n) (s ! (i + n))"

definition train_loop :: "nat \<Rightarrow> 'a list \<Rightarrow> 'a table \<Rightarrow> 'a table" where
  "train_loop n s m = fold (train_step n s) [0..<length s - n] m"

definition train_error :: "nat \<Rightarrow> nat \<Rightarrow> string" where
  "train_error n len =
     ''Cannot train MarkovChain(order='' @ str_nat n @ '') on sequence of length=''
       @ str_nat len @ ''.''"

definition train :: "'a markov_chain \<Rightarrow> 'a list \<Rightarrow> error + 'a markov_chain" where
  "train st s =
     (if length s \<le> order st then Inl (ValueError (train_error (order st) (length s)))
      else Inr (st\<lparr>model := setdefault (train_loop (order st) s (model st)) (last_n (order st) s)\<rparr>))"

text \<open>Several \<^verbatim>\<open>train\<close> calls in a row; the first exception ends the run.\<close>

fun train_all :: "'a markov_chain \<Rightarrow> 'a list list \<Rightarrow> error + 'a markov_chain" where
  "train_all st [] = Inr st"
| "train_all st (s # ss) = (case train st s of Inl e \<Rightarrow> Inl e | Inr st' \<Rightarrow> train_all st' ss)"

text \<open>The count recorded for successor \<open>x\<close> after context \<open>k\<close> (0 when there is none).\<close>

definition count_of :: "'a table \<Rightarrow> 'a list \<Rightarrow> 'a \<Rightarrow> nat" where
  "count_of m k x = (case map_of m k of None \<Rightarrow> 0 | Some c \<Rightarrow> counter_get c x)"

text \<open>The number of window starts of \<open>s\<close> at which context \<open>k\<close> is followed by \<open>x\<close>.\<close>

definition occurrences :: "nat \<Rightarrow> 'a list \<Rightarrow> 'a list \<Rightarrow> 'a \<Rightarrow> nat" where
  "occurrences n s k x =
     length (filter (\<lambda>i. window s i n = k \<and> s ! (i + n) = x) [0..<length s - n])"

section \<open>Generation\<close>

text \<open>
  The program draws from Python's global \<^verbatim>\<open>random\<close> module. Its source of randomness is
  a parameter here: \<open>rnd j\<close> is the \<open>j\<close>-th raw draw of the run, a natural number that
  \<^verbatim>\<open>random.choice\<close> reduces modulo the length of the sequence and \<^verbatim>\<open>random.choices\<close>
  modulo the total weight, so that a uniformly distributed draw gives the distribution of
  the library function (the library computes with floats; the draws here are exact).
  Every outcome of the library function is the outcome of some draw.

  \<^verbatim>\<open>random.choice(seq)\<close> raises \<^verbatim>\<open>IndexError\<close> on an empty sequence.
\<close>

definition random_choice :: "'a list \<Rightarrow> nat \<Rightarrow> error + 'a" where
  "random_choice xs r = (if xs = [] then Inl IndexError else Inr (xs ! (r mod length xs)))"

text \<open>
  \<^verbatim>\<open>random.choices(population, weights, k=1)[0]\<close> returns
  \<^verbatim>\<open>population[bisect(cum_weights, random() * total, 0, n - 1)]\<close>: the first position
  whose cumulative weight exceeds the draw, and never more than the last position.
\<close>

fun bisect_cum :: "nat list \<Rightarrow> nat \<Rightarrow> nat" where
  "bisect_cum [] r = 0"
| "bisect_cum [w] r = 0"
| "bisect_cum (w # ws) r = (if r < w then 0 else Suc (bisect_cum ws (r - w)))"

definition random_choices :: "'a list \<Rightarrow> nat list \<Rightarrow> nat \<Rightarrow> 'a" where
  "random_choices choices counts r = choices ! bisect_cum counts (r mod sum_list counts)"

text \<open>
  The variables of the loop of \<^verbatim>\<open>generate\<close>: the chain (which the loop only reads),
  the number of draws made so far, \<^verbatim>\<open>current_state\<close> and \<^verbatim>\<open>result\<close>.
\<close>

record 'a gen_state =
  chain :: "'a markov_chain"
  draws :: nat
  current_state :: "'a list"
  result :: "'a list"

text \<open>\<^verbatim>\<open>self.model.get(k)\<close>: a plain lookup, \<^verbatim>\<open>None\<close> for an absent key, nothing inserted.\<close>

definition dict_get :: "'a table \<Rightarrow> 'a list \<Rightarrow> 'a counter option" where
  "dict_get m k = map_of m k"

text \<open>\<^verbatim>\<open>if next_notes:\<close> holds for a counter with at least one entry.\<close>

definition truthy :: "'a counter option \<Rightarrow> bool" where
  "truthy c = (case c of None \<Rightarrow> False | Some items \<Rightarrow> items \<noteq> [])"

text \<open>
  \<^verbatim>\<open>result.append(next_note); current_state = tuple(result[-self.order:])\<close>
\<close>

definition append_note :: "'a gen_state \<Rightarrow> 'a \<Rightarrow> 'a gen_state" where
  "append_note g x =
     (let r = result g @ [x]
      in g\<lparr>current_state := last_n (order (chain g)) r, result := r\<rparr>)"

text \<open>
  One iteration of the loop. In the first branch \<^verbatim>\<open>c / total\<close> raises
  \<^verbatim>\<open>ZeroDivisionError\<close> when the counts sum to zero.
\<close>

definition gen_step :: "'a list list \<Rightarrow> (nat \<Rightarrow> nat) \<Rightarrow> 'a gen_state \<Rightarrow> error + 'a gen_state" where
  "gen_step states rnd g =
     (let next_notes = dict_get (model (chain g)) (current_state g)
      in if truthy next_notes then
           (let choices = map fst (the next_notes);
                counts = map snd (the next_notes);
                total = sum_list counts
            in if total = 0 then Inl ZeroDivisionError
               else Inr (append_note (g\<lparr>draws := draws g + 1\<rparr>)
                           (random_choices choices counts (rnd (draws g)))))
         else
           (case random_choice states (rnd (draws g)) of
              Inl e \<Rightarrow> Inl e
            | Inr cs \<Rightarrow>
               (case random_choice cs (rnd (draws g + 1)) of
                  Inl e \<Rightarrow> Inl e
                | Inr x \<Rightarrow> Inr (append_note (g\<lparr>draws := draws g + 2, current_state := cs\<rparr>) x))))"

fun gen_loop :: "'a list list \<Rightarrow> (nat \<Rightarrow> nat) \<Rightarrow> nat \<Rightarrow> 'a gen_state \<Rightarrow> error + 'a gen_state" where
  "gen_loop states rnd 0 g = Inr g"
| "gen_loop states rnd (Suc n) g =
     (case gen_step states rnd g of Inl e \<Rightarrow> Inl e | Inr g' \<Rightarrow> gen_loop states rnd n g')"

definition generate_error :: "int \<Rightarrow> nat \<Rightarrow> string" where
  "generate_error len n =
     ''Cannot generate '' @ str_int len @ '' notes with order='' @ str_nat n @ ''.''"

definition empty_model_error :: string where
  "empty_model_error = ''The Markov model is empty. Train it first.''"

text \<open>
  \<^verbatim>\<open>generate\<close> returns the chain as it is after the call together with the result.
\<close>

definition generate :: "'a markov_chain \<Rightarrow> (nat \<Rightarrow> nat) \<Rightarrow> int \<Rightarrow> error + ('a markov_chain \<times> 'a list)" where
  "generate st rnd len =
     (if model st = [] then Inl (ValueError empty_model_error)
      else if len \<le> int (order st) then Inl (ValueError (generate_error len (order st)))
      else
        (let states = map fst (model st)
         in case random_choice states (rnd 0) of
              Inl e \<Rightarrow> Inl e
            | Inr cs \<Rightarrow>
               (case gen_loop states rnd (nat (len - int (order st)))
                       \<lparr>chain = st, draws = 1, current_state = cs, result = cs\<rparr> of
                  Inl e \<Rightarrow> Inl e
                | Inr g \<Rightarrow> Inr (chain g, result g))))"

text \<open>
  The shape of a table as the data model describes it: distinct keys, every key a context
  of exactly \<open>n\<close> elements, every counter with distinct successors and positive counts.
\<close>

definition wf_counter :: "'a counter \<Rightarrow> bool" where
  "wf_counter c = (distinct (map fst c) \<and> list_all (\<lambda>(x, cnt). 0 < cnt) c)"

definition wf_table :: "nat \<Rightarrow> 'a table \<Rightarrow> bool" where
  "wf_table n m =
     (distinct (map fst m) \<and> list_all (\<lambda>(k, c). length k = n \<and> wf_counter c) m)"

text \<open>
  The weight of an outcome: of the \<open>n\<close> raw draws \<open>0, \<dots>, n - 1\<close>, the number on which
  the choice \<open>f\<close> gives \<open>y\<close>. With a draw uniform on these \<open>n\<close> values the probability
  of \<open>y\<close> is this number over \<open>n\<close>.
\<close>

definition draws_giving :: "(nat \<Rightarrow> 'b) \<Rightarrow> nat \<Rightarrow> 'b \<Rightarrow> nat" where
  "draws_giving f n y = length (filter (\<lambda>r. f r = y) [0..<n])"

section \<open>Event pairer and serializer\<close>

text \<open>
  Modelled from the spec: the message and file types of the external event-file library
  (\<^verbatim>\<open>mido.Message\<close>, \<^verbatim>\<open>mido.MetaMessage\<close>, \<^verbatim>\<open>mido.MidiFile\<close>) are not part of the
  sources. A raw timed event carries a kind, a pitch (\<^verbatim>\<open>note\<close>), a velocity and a
  delta-time (\<^verbatim>\<open>time\<close>); a tempo directive carries a tempo and a delta-time; every other
  message is of no interest to the program and keeps its type name and delta-time only.
  A file is its \<^verbatim>\<open>ticks_per_beat\<close> and its tracks, each a list of messages.
  \<^verbatim>\<open>bpm2tempo\<close> gives the microseconds per beat of a tempo in beats per minute.
\<close>

datatype message =
  Note_on int int int
| Note_off int int int
| Set_tempo int int
| Other_message string int

record midi_file =
  ticks_per_beat :: int
  tracks :: "message list list"

definition bpm2tempo :: "int \<Rightarrow> int" where
  "bpm2tempo bpm = 60000000 div bpm"

text \<open>
  The look-ahead of \<^verbatim>\<open>extract_notes\<close> over \<^verbatim>\<open>track[i + 1:]\<close>: the fields of the first
  message that is a \<^verbatim>\<open>note_off\<close>, or a \<^verbatim>\<open>note_on\<close> of velocity 0, for the note \<open>n\<close>;
  \<^verbatim>\<open>None\<close> when the loop ends without \<^verbatim>\<open>break\<close>.
\<close>

fun first_off :: "int \<Rightarrow> message list \<Rightarrow> timed_event option" where
  "first_off n [] = None"
| "first_off n (Note_off n2 v2 t2 # ms) =
     (if n2 = n then Some (n2, v2, t2) else first_off n ms)"
| "first_off n (Note_on n2 v2 t2 # ms) =
     (if v2 = 0 \<and> n2 = n then Some (n2, v2, t2) else first_off n ms)"
| "first_off n (_ # ms) = first_off n ms"

text \<open>The loop over one track; \<open>rest\<close> is \<^verbatim>\<open>track[i + 1:]\<close>.\<close>

fun pair_track :: "int \<Rightarrow> message list \<Rightarrow> note_pair list" where
  "pair_track d [] = []"
| "pair_track d (Note_on n v t # rest) =
     (if v > 0 then
        ((n, v, t), (case first_off n rest of None \<Rightarrow> (n, 0, d) | Some off \<Rightarrow> off))
          # pair_track d rest
      else pair_track d rest)"
| "pair_track d (_ # rest) = pair_track d rest"

text \<open>
  \<^verbatim>\<open>extract_notes\<close>, from the file the library has read: the pairs of every track, in
  the order of the tracks. \<^verbatim>\<open>default_off_time\<close> defaults to 480.
\<close>

definition extract_notes :: "midi_file \<Rightarrow> int \<Rightarrow> note_pair list" where
  "extract_notes mid default_off_time = concat (map (pair_track default_off_time) (tracks mid))"

definition extract_notes_default :: "midi_file \<Rightarrow> note_pair list" where
  "extract_notes_default mid = extract_notes mid 480"

text \<open>
  \<^verbatim>\<open>save_melody\<close>: the file handed to the library's writer. The tempo is looked for in
  \<^verbatim>\<open>original_midi.tracks[0]\<close>, which raises \<^verbatim>\<open>IndexError\<close> for a file without tracks.
  The \<^verbatim>\<open>for\<close> loop stops at the first \<^verbatim>\<open>set_tempo\<close> message; its \<^verbatim>\<open>else\<close> branch runs
  when there is none.
\<close>

fun copy_tempo :: "message list \<Rightarrow> message" where
  "copy_tempo [] = Set_tempo (bpm2tempo 120) 0"
| "copy_tempo (Set_tempo tempo t # ms) = Set_tempo tempo 0"
| "copy_tempo (_ # ms) = copy_tempo ms"

fun note_messages :: "note_pair \<Rightarrow> message list" where
  "note_messages ((note, vel_on, delta_on), (_, vel_off, delta_off)) =
     [Note_on note vel_on delta_on, Note_off note vel_off delta_off]"

definition save_melody :: "note_pair list \<Rightarrow> midi_file \<Rightarrow> error + midi_file" where
  "save_melody pairs original_midi =
     (case tracks original_midi of
        [] \<Rightarrow> Inl IndexError
      | track0 # _ \<Rightarrow>
          Inr \<lparr>ticks_per_beat = ticks_per_beat original_midi,
               tracks = [copy_tempo track0 # concat (map note_messages pairs)]\<rparr>)"

subsection \<open>The pairer as the specification words it\<close>

text \<open>
  A begin event is a \<^verbatim>\<open>note_on\<close> of positive velocity; an end event for pitch \<open>n\<close> is a
  \<^verbatim>\<open>note_off\<close>, or a \<^verbatim>\<open>note_on\<close> of velocity 0, of that pitch. The specification pairs the
  begin event at position \<open>i\<close> with the first end event for its pitch at a position after
  \<open>i\<close> of the unchanged input, and with a synthesized end when there is none.
\<close>

text \<open>The pitch, velocity and delta-time of a note event (read at note events only).\<close>

fun fields :: "message \<Rightarrow> timed_event" where
  "fields (Note_on n v t) = (n, v, t)"
| "fields (Note_off n v t) = (n, v, t)"
| "fields (Set_tempo tempo t) = (0, 0, t)"
| "fields (Other_message name t) = (0, 0, t)"

fun is_begin :: "message \<Rightarrow> bool" where
  "is_begin (Note_on n v t) = (v > 0)"
| "is_begin _ = False"

fun is_end_for :: "int \<Rightarrow> message \<Rightarrow> bool" where
  "is_end_for n (Note_off n2 v2 t2) = (n2 = n)"
| "is_end_for n (Note_on n2 v2 t2) = (v2 = 0 \<and> n2 = n)"
| "is_end_for n _ = False"

definition spec_end :: "int \<Rightarrow> message list \<Rightarrow> nat \<Rightarrow> timed_event" where
  "spec_end d evs i =
     (let n = fst (fields (evs ! i))
      in case find (is_end_for n) (drop (Suc i) evs) of
           None \<Rightarrow> (n, 0, d)
         | Some e \<Rightarrow> fields e)"

definition spec_pairs :: "int \<Rightarrow> message list \<Rightarrow> note_pair list" where
  "spec_pairs d evs =
     map (\<lambda>i. (fields (evs ! i), spec_end d evs i))
       (filter (\<lambda>i. is_begin (evs ! i)) [0..<length evs])"

text \<open>
  An already-paired stream: every begin event is directly followed by an explicit end
  event of its pitch, and there is nothing else, as in
  \<^verbatim>\<open>begin(60,100,0), end(60,0,10), begin(64,90,5), end(64,0,15)\<close>.
\<close>

fun matched_stream :: "message list \<Rightarrow> bool" where
  "matched_stream [] = True"
| "matched_stream (Note_on n v t # Note_off n2 v2 t2 # rest) =
     (v > 0 \<and> n2 = n \<and> matched_stream rest)"
| "matched_stream _ = False"

text \<open>The invariant of a note pair: both members have the same pitch.\<close>

fun same_pitch :: "note_pair \<Rightarrow> bool" where
  "same_pitch ((n, _, _), (n2, _, _)) = (n = n2)"

text \<open>A tempo directive.\<close>

fun is_tempo :: "message \<Rightarrow> bool" where
  "is_tempo (Set_tempo tempo t) = True"
| "is_tempo _ = False"

text \<open>The elements a table mentions, in its contexts and among its successors.\<close>

definition table_notes :: "'a table \<Rightarrow> 'a set" where
  "table_notes m = (\<Union>(k, c) \<in> set m. set k \<union> fst ` set c)"

section \<open>Example data\<close>

text \<open>A short melody of note pairs and the chain of order 1 trained on it once.\<close>

definition example_melody :: "note_pair list" where
  "example_melody =
     [((60, 100, 0), (60, 0, 10)), ((64, 90, 5), (64, 0, 15)),
      ((60, 100, 0), (60, 0, 10)), ((64, 90, 5), (64, 0, 15)),
      ((67, 80, 0), (67, 0, 480))]"

definition example_chain :: "note_pair markov_chain" where
  "example_chain =
     \<lparr>order = 1,
      model =
        [([((60, 100, 0), (60, 0, 10))], [(((64, 90, 5), (64, 0, 15)), 2)]),
         ([((64, 90, 5), (64, 0, 15))],
          [(((60, 100, 0), (60, 0, 10)), 1), (((67, 80, 0), (67, 0, 480)), 1)]),
         ([((67, 80, 0), (67, 0, 480))], [])]\<rparr>"

text \<open>The chain of order 2 trained on the same melody once.\<close>

definition example_chain2 :: "note_pair markov_chain" where
  "example_chain2 =
     \<lparr>order = 2,
      model =
        [([((60, 100, 0), (60, 0, 10)), ((64, 90, 5), (64, 0, 15))],
          [(((60, 100, 0), (60, 0, 10)), 1), (((67, 80, 0), (67, 0, 480)), 1)]),
         ([((64, 90, 5), (64, 0, 15)), ((60, 100, 0), (60, 0, 10))],
          [(((64, 90, 5), (64, 0, 15)), 1)]),
         ([((64, 90, 5), (64, 0, 15)), ((67, 80, 0), (67, 0, 480))], [])]\<rparr>"

section \<open>Properties of training\<close>

lemma count_of_count_transition:
  "count_of (count_transition m k x) k' x' =
     count_of m k' x' + (if k' = k \<and> x' = x then 1 else 0)"
  by (auto simp: count_of_def count_transition_def defaultdict_getitem_def counter_incr_def
        counter_get_def AList.update_conv' split: option.splits)

lemma count_of_fold_train_step:
  "count_of (fold (train_step n s) js m) k x =
     count_of m k x + length (filter (\<lambda>i. window s i n = k \<and> s ! (i + n) = x) js)"
  by (induction js arbitrary: m) (auto simp: train_step_def count_of_count_transition)

lemma count_of_train_loop:
  "count_of (train_loop n s m) k x = count_of m k x + occurrences n s k x"
  by (simp add: train_loop_def occurrences_def count_of_fold_train_step)

lemma count_of_setdefault: "count_of (setdefault m k) k' x = count_of m k' x"
  by (auto simp: count_of_def setdefault_def AList.update_conv' counter_get_def
        split: option.splits)

lemma map_of_setdefault:
  "map_of (setdefault m k) k' = (if k' = k \<and> map_of m k' = None then Some [] else map_of m k')"
  by (auto simp: setdefault_def AList.update_conv' split: option.splits)

lemma count_of_train:
  "train st s = Inr st' \<Longrightarrow>
   count_of (model st') k x = count_of (model st) k x + occurrences (order st) s k x"
  by (auto simp: train_def count_of_setdefault count_of_train_loop split: if_splits)

lemma train_order: "train st s = Inr st' \<Longrightarrow> order st' = order st"
  by (auto simp: train_def split: if_splits)

lemma occurrences_window:
  assumes "i < length s - n"
  shows "1 \<le> occurrences n s (window s i n) (s ! (i + n))"
proof -
  have "i \<in> set (filter (\<lambda>j. window s j n = window s i n \<and> s ! (j + n) = s ! (i + n))
                  [0..<length s - n])"
    using assms by simp
  then have "0 < length (filter (\<lambda>j. window s j n = window s i n \<and> s ! (j + n) = s ! (i + n))
                  [0..<length s - n])"
    by (metis length_pos_if_in_set)
  then show ?thesis by (simp add: occurrences_def Suc_le_eq)
qed

text \<open>
  Claim C2. Training on a sequence longer than the order succeeds and adds to the count of
  every (context, successor) pair the number of window starts at which the sequence shows
  that pair: one per window, so a pair that was absent and occurs once stands at 1, and
  every window of the sequence has a count of at least 1. Counts accumulate: a second
  call on the same sequence adds the same amounts again, and starting from the empty table
  every count after the second call is exactly twice the count after the first.
\<close>

theorem train_counts_windows:
  assumes "order st < length s"
  shows "\<exists>st1 st2. train st s = Inr st1 \<and> train st1 s = Inr st2 \<and>
           (\<forall>k x. count_of (model st1) k x
                    = count_of (model st) k x + occurrences (order st) s k x) \<and>
           (\<forall>i < length s - order st.
               1 \<le> count_of (model st1) (window s i (order st)) (s ! (i + order st))) \<and>
           (\<forall>k x. count_of (model st) k x = 0 \<and> occurrences (order st) s k x = 1
                    \<longrightarrow> count_of (model st1) k x = 1) \<and>
           (\<forall>k x. count_of (model st2) k x
                    = count_of (model st) k x + 2 * occurrences (order st) s k x) \<and>
           (model st = [] \<longrightarrow> (\<forall>k x. count_of (model st2) k x = 2 * count_of (model st1) k x))"
proof -
  from assms obtain st1 where t1: "train st s = Inr st1"
    by (simp add: train_def)
  then have o1: "order st1 = order st" by (rule train_order)
  with assms obtain st2 where t2: "train st1 s = Inr st2"
    by (simp add: train_def)
  have c1: "count_of (model st1) k x = count_of (model st) k x + occurrences (order st) s k x"
    for k x
    using count_of_train[OF t1] .
  have c2: "count_of (model st2) k x
              = count_of (model st) k x + 2 * occurrences (order st) s k x" for k x
    using count_of_train[OF t2, of k x] c1[of k x] o1 by simp
  have w: "1 \<le> count_of (model st1) (window s i (order st)) (s ! (i + order st))"
    if "i < length s - order st" for i
    using occurrences_window[OF that] c1 by (simp add: trans_le_add2)
  have e: "count_of (model st2) k x = 2 * count_of (model st1) k x" if "model st = []" for k x
    using that c1[of k x] c2[of k x] by (simp add: count_of_def)
  show ?thesis using t1 t2 c1 c2 w e by auto
qed

theorem train_counts_windows_witness:
  "order (init 1 :: note_pair markov_chain) < length example_melody \<and>
   (\<exists>st2. train (init 1) example_melody = Inr example_chain \<and>
      train example_chain example_melody = Inr st2 \<and>
      count_of (model example_chain) [((60, 100, 0), (60, 0, 10))] ((64, 90, 5), (64, 0, 15)) = 2 \<and>
      count_of (model st2) [((60, 100, 0), (60, 0, 10))] ((64, 90, 5), (64, 0, 15)) = 4)"
proof -
  have h: "order (init 1 :: note_pair markov_chain) < length example_melody"
    by (simp add: init_def example_melody_def)
  have t: "train (init 1) example_melody = Inr example_chain"
    by code_simp
  have c: "count_of (model example_chain) [((60, 100, 0), (60, 0, 10))] ((64, 90, 5), (64, 0, 15)) = 2"
    by code_simp
  from train_counts_windows[OF h] t obtain st2 where
    "train example_chain example_melody = Inr st2"
    "\<forall>k x. count_of (model st2) k x = 2 * count_of (model example_chain) k x"
    by (auto simp: init_def)
  with h t c show ?thesis by simp
qed

lemma count_of_pos_key: "0 < count_of m k x \<Longrightarrow> map_of m k \<noteq> None"
  by (cases "map_of m k") (simp_all add: count_of_def)

lemma train_loop_empty_context:
  assumes "s \<noteq> []"
  shows "map_of (train_loop 0 s m) [] \<noteq> None"
proof -
  have "1 \<le> occurrences 0 s (window s 0 0) (s ! (0 + 0))"
    by (rule occurrences_window) (use assms in simp)
  then have "0 < count_of (train_loop 0 s m) [] (s ! 0)"
    by (simp add: count_of_train_loop window_def)
  then show ?thesis by (rule count_of_pos_key)
qed

text \<open>
  Claim C7. After a successful call of \<^verbatim>\<open>train\<close> the final suffix of the sequence, as
  long as the order, is a key of the table; if the counting loop had not made it a key it
  maps to the empty counter; and registering it adds no successor: every non-empty counter
  of the table is the one the counting loop left, and every count is the one it left.
\<close>

theorem train_registers_tail:
  assumes "train st s = Inr st'"
  shows "drop (length s - order st) s \<in> fst ` set (model st') \<and>
         (map_of (train_loop (order st) s (model st)) (drop (length s - order st) s) = None
            \<longrightarrow> map_of (model st') (drop (length s - order st) s) = Some []) \<and>
         (\<forall>k c. map_of (model st') k = Some c
            \<longrightarrow> c = [] \<or> map_of (train_loop (order st) s (model st)) k = Some c) \<and>
         (\<forall>k x. count_of (model st') k x
            = count_of (train_loop (order st) s (model st)) k x)"
proof -
  let ?counted = "train_loop (order st) s (model st)"
  let ?sfx = "drop (length s - order st) s"
  from assms have len: "order st < length s"
    and m': "model st' = setdefault ?counted (last_n (order st) s)"
    by (auto simp: train_def split: if_splits)
  have key: "map_of (model st') ?sfx \<noteq> None"
  proof (cases "order st = 0")
    case True
    with len have "map_of ?counted [] \<noteq> None"
      using train_loop_empty_context[of s "model st"] by auto
    with True show ?thesis by (simp add: m' map_of_setdefault)
  next
    case False
    then show ?thesis by (simp add: m' map_of_setdefault last_n_def)
  qed
  have fresh: "map_of (model st') ?sfx = Some []" if "map_of ?counted ?sfx = None"
  proof (cases "order st = 0")
    case True
    with len that show ?thesis
      using train_loop_empty_context[of s "model st"] by auto
  next
    case False
    with that show ?thesis by (simp add: m' map_of_setdefault last_n_def)
  qed
  have old: "c = [] \<or> map_of ?counted k = Some c" if "map_of (model st') k = Some c" for k c
    using that by (auto simp: m' map_of_setdefault split: if_splits)
  have cnt: "count_of (model st') k x = count_of ?counted k x" for k x
    by (simp add: m' count_of_setdefault)
  from key have "?sfx \<in> fst ` set (model st')"
    by (simp add: map_of_eq_None_iff)
  with fresh old cnt show ?thesis by blast
qed

theorem train_registers_tail_witness:
  "train (init 1) example_melody = Inr example_chain \<and>
   [((67, 80, 0), (67, 0, 480))] \<in> fst ` set (model example_chain) \<and>
   map_of (model example_chain) [((67, 80, 0), (67, 0, 480))] = Some []"
proof -
  have t: "train (init 1) example_melody = Inr example_chain"
    by code_simp
  have n: "map_of (train_loop (order (init 1)) example_melody (model (init 1)))
             [((67, 80, 0), (67, 0, 480))] = None"
    by code_simp
  have d: "drop (length example_melody - order (init 1 :: note_pair markov_chain)) example_melody
             = [((67, 80, 0), (67, 0, 480))]"
    by (simp add: example_melody_def init_def)
  note r = train_registers_tail[OF t, unfolded d]
  from r have k: "[((67, 80, 0), (67, 0, 480))] \<in> fst ` set (model example_chain)"
    by blast
  from r n have "map_of (model example_chain) [((67, 80, 0), (67, 0, 480))] = Some []"
    by blast
  with t k show ?thesis by blast
qed

section \<open>Well-formed tables\<close>

text \<open>Training keeps a table in the shape of the data model, when the order is positive.\<close>

lemma list_all_update:
  "list_all P m \<Longrightarrow> P (k, v) \<Longrightarrow> list_all P (AList.update k v m)"
  by (induction m) auto

lemma wf_counter_incr: "wf_counter c \<Longrightarrow> wf_counter (counter_incr c x)"
  by (simp add: wf_counter_def counter_incr_def AList.distinct_update list_all_update)

lemma wf_counter_lookup:
  "wf_table n m \<Longrightarrow> map_of m k = Some c \<Longrightarrow> length k = n \<and> wf_counter c"
  by (auto simp: wf_table_def list_all_iff dest!: map_of_SomeD)

lemma wf_table_update:
  "wf_table n m \<Longrightarrow> length k = n \<Longrightarrow> wf_counter c \<Longrightarrow> wf_table n (AList.update k c m)"
  by (simp add: wf_table_def AList.distinct_update list_all_update)

lemma wf_counter_Nil: "wf_counter []"
  by (simp add: wf_counter_def)

lemma wf_table_count_transition:
  assumes "wf_table n m" "length k = n"
  shows "wf_table n (count_transition m k x)"
proof (cases "map_of m k")
  case None
  then show ?thesis using assms
    by (simp add: count_transition_def defaultdict_getitem_def wf_table_update
        wf_counter_incr wf_counter_Nil)
next
  case (Some c)
  then have "wf_counter c" using assms wf_counter_lookup by blast
  then show ?thesis using Some assms
    by (simp add: count_transition_def defaultdict_getitem_def wf_table_update wf_counter_incr)
qed

lemma length_window: "i + n \<le> length s \<Longrightarrow> length (window s i n) = n"
  by (simp add: window_def)

lemma wf_table_fold_train_step:
  "wf_table n m \<Longrightarrow> \<forall>i \<in> set js. i + n \<le> length s \<Longrightarrow>
   wf_table n (fold (train_step n s) js m)"
  by (induction js arbitrary: m)
     (simp_all add: train_step_def wf_table_count_transition length_window)

lemma wf_table_train_loop: "wf_table n m \<Longrightarrow> wf_table n (train_loop n s m)"
  unfolding train_loop_def by (rule wf_table_fold_train_step) auto

lemma wf_table_setdefault:
  "wf_table n m \<Longrightarrow> length k = n \<Longrightarrow> wf_table n (setdefault m k)"
  by (simp add: setdefault_def wf_table_update wf_counter_Nil split: option.splits)

lemma length_last_n: "0 < n \<Longrightarrow> n \<le> length s \<Longrightarrow> length (last_n n s) = n"
  by (simp add: last_n_def)

lemma wf_table_train:
  "wf_table (order st) (model st) \<Longrightarrow> 0 < order st \<Longrightarrow> train st s = Inr st' \<Longrightarrow>
   wf_table (order st') (model st')"
  by (auto simp: train_def wf_table_setdefault wf_table_train_loop length_last_n
      split: if_splits)

lemma wf_table_train_all:
  "wf_table (order st) (model st) \<Longrightarrow> 0 < order st \<Longrightarrow> train_all st ss = Inr st' \<Longrightarrow>
   wf_table (order st') (model st') \<and> order st' = order st"
proof (induction ss arbitrary: st)
  case Nil
  then show ?case by simp
next
  case (Cons s ss)
  from Cons.prems(3) obtain st1 where t: "train st s = Inr st1" and r: "train_all st1 ss = Inr st'"
    by (auto split: sum.splits)
  have "wf_table (order st1) (model st1)" "order st1 = order st"
    using wf_table_train[OF Cons.prems(1,2) t] train_order[OF t] by auto
  with Cons.IH[OF _ _ r] Cons.prems(2) show ?case by auto
qed

lemma wf_table_init: "wf_table n (model (init n))"
  by (simp add: init_def wf_table_def)


section \<open>Properties of generation\<close>

lemma bisect_cum_less: "ws \<noteq> [] \<Longrightarrow> bisect_cum ws r < length ws"
  by (induction ws r rule: bisect_cum.induct) auto

lemma random_choices_in:
  "choices \<noteq> [] \<Longrightarrow> length counts = length choices \<Longrightarrow>
   random_choices choices counts r \<in> set choices"
  by (metis bisect_cum_less length_0_conv nth_mem random_choices_def)

lemma random_choice_in:
  "random_choice xs r = Inr x \<Longrightarrow> x \<in> set xs"
  by (auto simp: random_choice_def split: if_splits)

lemma random_choice_ok: "xs \<noteq> [] \<Longrightarrow> \<exists>x. random_choice xs r = Inr x"
  by (simp add: random_choice_def)

lemma wf_counter_total: "wf_counter c \<Longrightarrow> c \<noteq> [] \<Longrightarrow> 0 < sum_list (map snd c)"
  by (cases c) (auto simp: wf_counter_def)

lemma gen_step_ok:
  assumes wf: "wf_table (order (chain g)) (model (chain g))"
    and pos: "0 < order (chain g)"
    and st: "states = map fst (model (chain g))" "states \<noteq> []"
  shows "\<exists>g' x. gen_step states rnd g = Inr g' \<and> chain g' = chain g \<and>
           result g' = result g @ [x] \<and>
           current_state g' = last_n (order (chain g)) (result g @ [x])"
proof (cases "truthy (dict_get (model (chain g)) (current_state g))")
  case True
  then obtain c where c: "map_of (model (chain g)) (current_state g) = Some c" "c \<noteq> []"
    by (auto simp: truthy_def dict_get_def split: option.splits)
  then have "sum_list (map snd c) \<noteq> 0"
    using wf wf_counter_lookup wf_counter_total by fastforce
  then show ?thesis using True c
    by (simp add: gen_step_def dict_get_def append_note_def Let_def del: sum_list_eq_0_iff)
next
  case False
  obtain cs where cs: "random_choice states (rnd (draws g)) = Inr cs"
    using random_choice_ok[OF st(2)] by blast
  then have "cs \<in> fst ` set (model (chain g))"
    using random_choice_in st(1) by fastforce
  then have "length cs = order (chain g)"
    using wf by (auto simp: wf_table_def list_all_iff)
  then have "cs \<noteq> []" using pos by auto
  then obtain x where x: "random_choice cs (rnd (draws g + 1)) = Inr x"
    using random_choice_ok by blast
  show ?thesis using False cs x
    by (simp add: gen_step_def append_note_def Let_def)
qed

lemma gen_loop_ok:
  assumes "wf_table (order (chain g)) (model (chain g))" "0 < order (chain g)"
    "states = map fst (model (chain g))" "states \<noteq> []"
  shows "\<exists>g' app. gen_loop states rnd k g = Inr g' \<and> chain g' = chain g \<and>
           result g' = result g @ app \<and> length app = k"
  using assms
proof (induction k arbitrary: g)
  case 0
  then show ?case by simp
next
  case (Suc k)
  from gen_step_ok[OF Suc.prems] obtain g1 x where
    s: "gen_step states rnd g = Inr g1" "chain g1 = chain g" "result g1 = result g @ [x]"
    by blast
  from Suc.IH[of g1] Suc.prems s(2) obtain g' app where
    l: "gen_loop states rnd k g1 = Inr g'" "chain g' = chain g1"
      "result g' = result g1 @ app" "length app = k"
    by auto
  have "result g' = result g @ (x # app)" using l(3) s(3) by simp
  with s l show ?case by auto
qed

lemma generate_ok:
  assumes wf: "wf_table (order st) (model st)" and pos: "0 < order st"
    and ne: "model st \<noteq> []" and len: "int (order st) < len"
  shows "\<exists>seed app. random_choice (map fst (model st)) (rnd 0) = Inr seed \<and>
           seed \<in> fst ` set (model st) \<and> length seed = order st \<and>
           length app = nat len - order st \<and>
           generate st rnd len = Inr (st, seed @ app)"
proof -
  let ?states = "map fst (model st)"
  from ne have sne: "?states \<noteq> []" by simp
  obtain seed where seed: "random_choice ?states (rnd 0) = Inr seed"
    using random_choice_ok[OF sne] by blast
  have "seed \<in> set ?states"
    using seed by (rule random_choice_in)
  then have mem: "seed \<in> fst ` set (model st)"
    by simp
  then have ls: "length seed = order st"
    using wf by (auto simp: wf_table_def list_all_iff)
  let ?g = "\<lparr>chain = st, draws = 1, current_state = seed, result = seed\<rparr>"
  from gen_loop_ok[of ?g ?states rnd "nat (len - int (order st))"] wf pos sne
  obtain g' app where l: "gen_loop ?states rnd (nat (len - int (order st))) ?g = Inr g'"
    "chain g' = st" "result g' = seed @ app" "length app = nat (len - int (order st))"
    by auto
  have "generate st rnd len = Inr (st, seed @ app)"
    using ne len seed l by (simp add: generate_def)
  moreover have "length app = nat len - order st" using l(4) len by linarith
  ultimately show ?thesis using seed mem ls by blast
qed

lemma gen_loop_add:
  "gen_loop states rnd (j + k) g =
     (case gen_loop states rnd j g of Inl e \<Rightarrow> Inl e | Inr g' \<Rightarrow> gen_loop states rnd k g')"
  by (induction j arbitrary: g) (auto split: sum.splits)

lemma generate_prefix:
  assumes wf: "wf_table (order st) (model st)" and pos: "0 < order st"
    and ne: "model st \<noteq> []" and lo: "int (order st) < len'" and le: "len' \<le> len"
    and g: "generate st rnd len = Inr (st, out)"
  shows "generate st rnd len' = Inr (st, take (nat len') out)"
proof -
  let ?states = "map fst (model st)"
  let ?j = "nat (len' - int (order st))"
  let ?k = "nat (len - len')"
  from lo le have split: "nat (len - int (order st)) = ?j + ?k" by linarith
  from g ne lo le obtain cs g2 where
    cs: "random_choice ?states (rnd 0) = Inr cs" and
    l2: "gen_loop ?states rnd (?j + ?k)
           \<lparr>chain = st, draws = 1, current_state = cs, result = cs\<rparr> = Inr g2" and
    o: "out = result g2"
    by (auto simp: generate_def Let_def split simp del: gen_loop.simps split: if_splits sum.splits)
  let ?g0 = "\<lparr>chain = st, draws = 1, current_state = cs, result = cs\<rparr>"
  from cs have "cs \<in> set ?states" by (rule random_choice_in)
  then have lcs: "length cs = order st"
    using wf by (auto simp: wf_table_def list_all_iff)
  from ne have sne: "?states \<noteq> []" by simp
  from gen_loop_ok[of ?g0 ?states rnd ?j] wf pos sne obtain g1 app1 where
    l1: "gen_loop ?states rnd ?j ?g0 = Inr g1" and c1: "chain g1 = st"
    and r1: "result g1 = cs @ app1" and n1: "length app1 = ?j"
    by auto
  from l2 l1 have l12: "gen_loop ?states rnd ?k g1 = Inr g2"
    by (simp add: gen_loop_add)
  from gen_loop_ok[of g1 ?states rnd ?k] wf pos sne c1 obtain g2' app2 where
    "gen_loop ?states rnd ?k g1 = Inr g2'" "result g2' = result g1 @ app2"
    by auto
  with l12 have r2: "result g2 = result g1 @ app2" by simp
  have "length (result g1) = nat len'" using r1 n1 lcs lo by simp
  then have "take (nat len') out = result g1" using o r2 by simp
  moreover have "generate st rnd len' = Inr (st, result g1)"
    using ne lo cs l1 c1 by (simp add: generate_def)
  ultimately show ?thesis by simp
qed

text \<open>
  Claim C1. For a chain of positive order whose table is non-empty and has the shape of
  the data model, and a length greater than the order, \<^verbatim>\<open>generate\<close> returns, whatever
  the random draws are: the result is the seed context drawn from the keys (its
  \<open>order\<close> elements, in order) followed by \<open>length - order\<close> appended elements, so
  exactly \<open>length\<close> elements. The elements stand in the order of their insertion: with
  the same draws, a call for a shorter length returns a prefix of the result.
\<close>

theorem generate_length:
  assumes "wf_table (order st) (model st)" and "0 < order st"
    and "model st \<noteq> []" and "int (order st) < len"
  shows "\<exists>seed app. random_choice (map fst (model st)) (rnd 0) = Inr seed \<and>
           seed \<in> fst ` set (model st) \<and> length seed = order st \<and>
           length app = nat len - order st \<and>
           generate st rnd len = Inr (st, seed @ app) \<and>
           length (seed @ app) = nat len \<and>
           (\<forall>len'. int (order st) < len' \<and> len' \<le> len \<longrightarrow>
              generate st rnd len' = Inr (st, take (nat len') (seed @ app)))"
proof -
  from generate_ok[OF assms] obtain seed app where
    g: "random_choice (map fst (model st)) (rnd 0) = Inr seed"
       "seed \<in> fst ` set (model st)" "length seed = order st"
       "length app = nat len - order st" "generate st rnd len = Inr (st, seed @ app)"
    by blast
  have "length (seed @ app) = nat len" using g(3,4) assms(4) by simp
  moreover have "generate st rnd len' = Inr (st, take (nat len') (seed @ app))"
    if "int (order st) < len' \<and> len' \<le> len" for len'
    using generate_prefix[OF assms(1,2,3) _ _ g(5), of len'] that by blast
  ultimately show ?thesis using g by blast
qed

theorem generate_length_witness:
  "wf_table (order example_chain) (model example_chain) \<and> 0 < order example_chain \<and>
   model example_chain \<noteq> [] \<and> int (order example_chain) < 4 \<and>
   (\<exists>out. generate example_chain (\<lambda>j. j) 4 = Inr (example_chain, out) \<and> length out = 4 \<and>
      generate example_chain (\<lambda>j. j) 3 = Inr (example_chain, take 3 out))"
proof -
  have h1: "wf_table (order example_chain) (model example_chain)"
    by (simp add: wf_table_def wf_counter_def example_chain_def)
  have h2: "0 < order example_chain" by (simp add: example_chain_def)
  have h3: "model example_chain \<noteq> []" by (simp add: example_chain_def)
  have h4: "int (order example_chain) < 4" by (simp add: example_chain_def)
  from generate_length[OF h1 h2 h3 h4, of "\<lambda>j. j"] obtain seed app where
    g: "generate example_chain (\<lambda>j. j) 4 = Inr (example_chain, seed @ app)" and
    l: "length (seed @ app) = nat 4" and
    p: "\<forall>len'. int (order example_chain) < len' \<and> len' \<le> 4 \<longrightarrow>
          generate example_chain (\<lambda>j. j) len' = Inr (example_chain, take (nat len') (seed @ app))"
    by blast
  have "int (order example_chain) < 3 \<and> (3::int) \<le> 4"
    by (simp add: example_chain_def)
  with p have "generate example_chain (\<lambda>j. j) 3 = Inr (example_chain, take (nat 3) (seed @ app))"
    by blast
  with g l have
    "\<exists>out. generate example_chain (\<lambda>j. j) 4 = Inr (example_chain, out) \<and> length out = 4 \<and>
      generate example_chain (\<lambda>j. j) 3 = Inr (example_chain, take 3 out)"
    by auto
  with h1 h2 h3 h4 show ?thesis by blast
qed

lemma gen_step_chain: "gen_step states rnd g = Inr g' \<Longrightarrow> chain g' = chain g"
  by (auto simp: gen_step_def append_note_def Let_def split: if_splits sum.splits)

lemma gen_loop_chain: "gen_loop states rnd k g = Inr g' \<Longrightarrow> chain g' = chain g"
proof (induction k arbitrary: g)
  case 0
  then show ?case by simp
next
  case (Suc k)
  then obtain g1 where "gen_step states rnd g = Inr g1" "gen_loop states rnd k g1 = Inr g'"
    by (auto split: sum.splits)
  then show ?case using Suc.IH gen_step_chain by fastforce
qed

text \<open>
  Claim C9. Whenever \<^verbatim>\<open>generate\<close> returns, the chain it leaves is the chain it was
  called on: the table is only read, and the lookup of a context that is not a key
  (\<^verbatim>\<open>self.model.get\<close>, not \<^verbatim>\<open>self.model[...]\<close>) inserts nothing.
\<close>

theorem generate_frame:
  assumes "generate st rnd len = Inr (st', out)"
  shows "st' = st \<and> model st' = model st"
proof -
  from assms obtain cs g where
    "gen_loop (map fst (model st)) rnd (nat (len - int (order st)))
       \<lparr>chain = st, draws = 1, current_state = cs, result = cs\<rparr> = Inr g"
    "st' = chain g"
    by (auto simp: generate_def Let_def split: if_splits sum.splits)
  then show ?thesis using gen_loop_chain by fastforce
qed

theorem generate_frame_witness:
  "dict_get (model example_chain2)
     [((67, 80, 0), (67, 0, 480)), ((60, 100, 0), (60, 0, 10))] = None \<and>
   (\<exists>st'. generate example_chain2 (\<lambda>j. j + 2) 5 =
      Inr (st',
        [((64, 90, 5), (64, 0, 15)), ((67, 80, 0), (67, 0, 480)), ((60, 100, 0), (60, 0, 10)),
         ((64, 90, 5), (64, 0, 15)), ((67, 80, 0), (67, 0, 480))]) \<and>
      model st' = model example_chain2)"
proof -
  have a: "dict_get (model example_chain2)
     [((67, 80, 0), (67, 0, 480)), ((60, 100, 0), (60, 0, 10))] = None"
    by code_simp
  have g: "generate example_chain2 (\<lambda>j. j + 2) 5 =
      Inr (example_chain2,
        [((64, 90, 5), (64, 0, 15)), ((67, 80, 0), (67, 0, 480)), ((60, 100, 0), (60, 0, 10)),
         ((64, 90, 5), (64, 0, 15)), ((67, 80, 0), (67, 0, 480))])"
    by code_simp
  from generate_frame[OF g] a g show ?thesis by simp
qed

lemma table_notes_update:
  "table_notes (AList.update k c m) \<subseteq> table_notes m \<union> set k \<union> fst ` set c"
  by (induction m) (auto simp: table_notes_def)

lemma table_notes_lookup: "map_of m k = Some c \<Longrightarrow> set k \<union> fst ` set c \<subseteq> table_notes m"
  by (force simp: table_notes_def dest!: map_of_SomeD)

lemma counter_incr_keys: "fst ` set (counter_incr c x) \<subseteq> insert x (fst ` set c)"
  by (auto simp: counter_incr_def AList.dom_update)

lemma table_notes_count_transition:
  "table_notes (count_transition m k x) \<subseteq> table_notes m \<union> set k \<union> {x}"
proof (cases "map_of m k")
  case None
  have "table_notes (AList.update k (counter_incr [] x) (AList.update k [] m))
          \<subseteq> table_notes (AList.update k [] m) \<union> set k \<union> fst ` set (counter_incr [] x)"
    by (rule table_notes_update)
  also have "\<dots> \<subseteq> table_notes m \<union> set k \<union> {x}"
    using table_notes_update[of k "[]" m] counter_incr_keys[of "[]" x] by auto
  finally show ?thesis using None
    by (simp add: count_transition_def defaultdict_getitem_def)
next
  case (Some c)
  have "table_notes (AList.update k (counter_incr c x) m)
          \<subseteq> table_notes m \<union> set k \<union> fst ` set (counter_incr c x)"
    by (rule table_notes_update)
  also have "\<dots> \<subseteq> table_notes m \<union> set k \<union> {x}"
    using table_notes_lookup[OF Some] counter_incr_keys[of c x] by auto
  finally show ?thesis using Some
    by (simp add: count_transition_def defaultdict_getitem_def)
qed

lemma set_window: "set (window s i n) \<subseteq> set s"
  unfolding window_def by (meson set_take_subset set_drop_subset subset_trans)

lemma set_last_n: "set (last_n n s) \<subseteq> set s"
  by (auto simp: last_n_def dest: in_set_dropD)

lemma table_notes_fold_train_step:
  "\<forall>i \<in> set js. i + n < length s \<Longrightarrow>
   table_notes (fold (train_step n s) js m) \<subseteq> table_notes m \<union> set s"
proof (induction js arbitrary: m)
  case Nil
  then show ?case by simp
next
  case (Cons j js)
  have "table_notes (train_step n s j m) \<subseteq> table_notes m \<union> set s"
    using table_notes_count_transition[of m "window s j n" "s ! (j + n)"]
      set_window[of s j n] Cons.prems
    by (auto simp: train_step_def)
  moreover have "table_notes (fold (train_step n s) js (train_step n s j m))
                   \<subseteq> table_notes (train_step n s j m) \<union> set s"
    using Cons.IH Cons.prems by simp
  ultimately show ?case by auto
qed

lemma table_notes_train:
  assumes "train st s = Inr st'"
  shows "table_notes (model st') \<subseteq> table_notes (model st) \<union> set s"
proof -
  let ?counted = "train_loop (order st) s (model st)"
  from assms have m': "model st' = setdefault ?counted (last_n (order st) s)"
    by (auto simp: train_def split: if_splits)
  have "table_notes ?counted \<subseteq> table_notes (model st) \<union> set s"
    unfolding train_loop_def by (rule table_notes_fold_train_step) auto
  moreover have "table_notes (setdefault ?counted (last_n (order st) s))
                   \<subseteq> table_notes ?counted \<union> set s"
    using table_notes_update[of "last_n (order st) s" "[]" ?counted] set_last_n[of "order st" s]
    by (auto simp: setdefault_def split: option.splits)
  ultimately show ?thesis using m' by auto
qed

lemma table_notes_train_all:
  "train_all st ss = Inr st' \<Longrightarrow>
   table_notes (model st') \<subseteq> table_notes (model st) \<union> \<Union> (set ` set ss)"
proof (induction ss arbitrary: st)
  case Nil
  then show ?case by simp
next
  case (Cons s ss)
  then obtain st1 where t: "train st s = Inr st1" and r: "train_all st1 ss = Inr st'"
    by (auto split: sum.splits)
  from table_notes_train[OF t] Cons.IH[OF r] show ?case by auto
qed

lemma gen_step_notes:
  assumes "gen_step states rnd g = Inr g'" "set states \<subseteq> fst ` set (model (chain g))"
  shows "set (result g') \<subseteq> set (result g) \<union> table_notes (model (chain g))"
proof (cases "truthy (dict_get (model (chain g)) (current_state g))")
  case True
  then obtain c where c: "map_of (model (chain g)) (current_state g) = Some c" "c \<noteq> []"
    by (auto simp: truthy_def dict_get_def split: option.splits)
  have "random_choices (map fst c) (map snd c) (rnd (draws g)) \<in> set (map fst c)"
    by (rule random_choices_in) (use c in simp_all)
  then have "random_choices (map fst c) (map snd c) (rnd (draws g))
               \<in> table_notes (model (chain g))"
    using table_notes_lookup[OF c(1)] by auto
  then show ?thesis using assms(1) True c
    by (auto simp: gen_step_def dict_get_def append_note_def Let_def split: if_splits)
next
  case False
  with assms(1) obtain cs x where cs: "random_choice states (rnd (draws g)) = Inr cs"
    and x: "random_choice cs (rnd (draws g + 1)) = Inr x"
    and r: "result g' = result g @ [x]"
    by (auto simp: gen_step_def append_note_def Let_def split: sum.splits)
  from cs assms(2) have "cs \<in> fst ` set (model (chain g))"
    using random_choice_in by fastforce
  then have "set cs \<subseteq> table_notes (model (chain g))"
    by (force simp: table_notes_def)
  with x r show ?thesis using random_choice_in by fastforce
qed

lemma gen_loop_notes:
  "gen_loop states rnd k g = Inr g' \<Longrightarrow> set states \<subseteq> fst ` set (model (chain g)) \<Longrightarrow>
   set (result g') \<subseteq> set (result g) \<union> table_notes (model (chain g))"
proof (induction k arbitrary: g)
  case 0
  then show ?case by auto
next
  case (Suc k)
  then obtain g1 where s: "gen_step states rnd g = Inr g1" and l: "gen_loop states rnd k g1 = Inr g'"
    by (auto split: sum.splits)
  have c: "chain g1 = chain g" using s by (rule gen_step_chain)
  from gen_step_notes[OF s Suc.prems(2)] Suc.IH[OF l] Suc.prems(2) c show ?case by auto
qed

lemma generate_notes:
  assumes "generate st rnd len = Inr (st', out)"
  shows "set out \<subseteq> table_notes (model st)"
proof -
  from assms obtain cs g where
    cs: "random_choice (map fst (model st)) (rnd 0) = Inr cs" and
    l: "gen_loop (map fst (model st)) rnd (nat (len - int (order st)))
       \<lparr>chain = st, draws = 1, current_state = cs, result = cs\<rparr> = Inr g" and
    o: "out = result g"
    by (auto simp: generate_def Let_def split: if_splits sum.splits)
  from cs have "cs \<in> fst ` set (model st)" using random_choice_in by fastforce
  then have "set cs \<subseteq> table_notes (model st)" by (force simp: table_notes_def)
  with gen_loop_notes[OF l] o show ?thesis by auto
qed

text \<open>
  Claim C10. For a chain trained from the empty table by any run of successful
  \<^verbatim>\<open>train\<close> calls, every element of every result of \<^verbatim>\<open>generate\<close> is an element of
  one of the training sequences.
\<close>

theorem generate_from_training:
  assumes "train_all (init n) seqs = Inr st" and "generate st rnd len = Inr (st', out)"
  shows "\<forall>x \<in> set out. \<exists>s \<in> set seqs. x \<in> set s"
proof -
  have "table_notes (model st) \<subseteq> \<Union> (set ` set seqs)"
    using table_notes_train_all[OF assms(1)] by (simp add: init_def table_notes_def)
  with generate_notes[OF assms(2)] show ?thesis by auto
qed

theorem generate_from_training_witness:
  "train_all (init 2) [example_melody] = Inr example_chain2 \<and>
   generate example_chain2 (\<lambda>j. j + 2) 5 =
      Inr (example_chain2,
        [((64, 90, 5), (64, 0, 15)), ((67, 80, 0), (67, 0, 480)), ((60, 100, 0), (60, 0, 10)),
         ((64, 90, 5), (64, 0, 15)), ((67, 80, 0), (67, 0, 480))]) \<and>
   set [((64, 90, 5), (64, 0, 15)), ((67, 80, 0), (67, 0, 480)), ((60, 100, 0), (60, 0, 10)),
         ((64, 90, 5), (64, 0, 15)), ((67, 80, 0), (67, 0, 480))] \<subseteq> set example_melody"
proof -
  have t: "train_all (init 2) [example_melody] = Inr example_chain2"
    by code_simp
  have g: "generate example_chain2 (\<lambda>j. j + 2) 5 =
      Inr (example_chain2,
        [((64, 90, 5), (64, 0, 15)), ((67, 80, 0), (67, 0, 480)), ((60, 100, 0), (60, 0, 10)),
         ((64, 90, 5), (64, 0, 15)), ((67, 80, 0), (67, 0, 480))])"
    by code_simp
  from generate_from_training[OF t g] have
    "set [((64, 90, 5), (64, 0, 15)), ((67, 80, 0), (67, 0, 480)), ((60, 100, 0), (60, 0, 10)),
         ((64, 90, 5), (64, 0, 15)), ((67, 80, 0), (67, 0, 480))] \<subseteq> set example_melody"
    by (simp add: subset_iff)
  with t g show ?thesis by blast
qed

section \<open>Errors\<close>

lemma gen_step_no_ValueError: "gen_step states rnd g \<noteq> Inl (ValueError msg)"
  by (auto simp: gen_step_def random_choice_def Let_def split: sum.splits if_splits)

lemma gen_loop_no_ValueError: "gen_loop states rnd k g \<noteq> Inl (ValueError msg)"
proof (induction k arbitrary: g)
  case 0
  then show ?case by simp
next
  case (Suc k)
  show ?case
  proof (cases "gen_step states rnd g")
    case (Inl e)
    then have "e \<noteq> ValueError msg"
      using gen_step_no_ValueError[of states rnd g msg] by auto
    with Inl show ?thesis by simp
  next
    case (Inr g1)
    then show ?thesis using Suc.IH by simp
  qed
qed

lemma generate_ValueError:
  assumes "generate st rnd len = Inl (ValueError msg)"
  shows "(model st = [] \<and> msg = empty_model_error) \<or>
         (model st \<noteq> [] \<and> len \<le> int (order st) \<and> msg = generate_error len (order st))"
proof (cases "model st = [] \<or> len \<le> int (order st)")
  case True
  with assms show ?thesis by (auto simp: generate_def split: if_splits)
next
  case False
  then obtain cs where "random_choice (map fst (model st)) (rnd 0) = Inr cs"
    by (auto simp: random_choice_def)
  with False assms show ?thesis
    using gen_loop_no_ValueError[of "map fst (model st)" rnd "nat (len - int (order st))"
            "\<lparr>chain = st, draws = 1, current_state = cs, result = cs\<rparr>" msg]
    by (auto simp: generate_def split: sum.splits)
qed

lemma messages_differ: "generate_error len n \<noteq> empty_model_error"
  by (simp add: generate_error_def empty_model_error_def)

text \<open>
  Claim C6, as the code has it. \<^verbatim>\<open>train\<close> fails exactly when the sequence is no longer
  than the order, with a \<^verbatim>\<open>ValueError\<close> whose message names the order and the actual
  length. \<^verbatim>\<open>generate\<close> fails with the empty-model message exactly when the table is
  empty, and with the message about the length exactly when the table is non-empty and the
  length is at most the order: the emptiness check comes first. It raises no other
  \<^verbatim>\<open>ValueError\<close>, and on a table of the data model's shape with a positive order it does
  not fail in any other case.
\<close>

theorem train_generate_errors:
  "((\<exists>e. train st s = Inl e) \<longleftrightarrow> length s \<le> order st) \<and>
   (length s \<le> order st \<longrightarrow>
      train st s = Inl (ValueError
        (''Cannot train MarkovChain(order='' @ str_nat (order st)
           @ '') on sequence of length='' @ str_nat (length s) @ ''.''))) \<and>
   (generate st rnd len = Inl (ValueError ''The Markov model is empty. Train it first.'')
      \<longleftrightarrow> model st = []) \<and>
   (generate st rnd len = Inl (ValueError
        (''Cannot generate '' @ str_int len @ '' notes with order='' @ str_nat (order st) @ ''.''))
      \<longleftrightarrow> model st \<noteq> [] \<and> len \<le> int (order st)) \<and>
   (\<forall>msg. generate st rnd len = Inl (ValueError msg) \<longrightarrow>
      model st = [] \<or> len \<le> int (order st)) \<and>
   (wf_table (order st) (model st) \<and> 0 < order st \<longrightarrow>
      ((\<exists>e. generate st rnd len = Inl e) \<longleftrightarrow> model st = [] \<or> len \<le> int (order st)))"
proof -
  have t1: "(\<exists>e. train st s = Inl e) \<longleftrightarrow> length s \<le> order st"
    by (simp add: train_def)
  have t2: "length s \<le> order st \<longrightarrow>
      train st s = Inl (ValueError
        (''Cannot train MarkovChain(order='' @ str_nat (order st)
           @ '') on sequence of length='' @ str_nat (length s) @ ''.''))"
    by (simp add: train_def train_error_def)
  have g1: "generate st rnd len = Inl (ValueError ''The Markov model is empty. Train it first.'')
      \<longleftrightarrow> model st = []"
  proof
    assume "generate st rnd len = Inl (ValueError ''The Markov model is empty. Train it first.'')"
    from generate_ValueError[OF this] show "model st = []"
      using messages_differ[of len "order st"] by (auto simp: empty_model_error_def)
  next
    assume "model st = []"
    then show "generate st rnd len = Inl (ValueError ''The Markov model is empty. Train it first.'')"
      by (simp add: generate_def empty_model_error_def)
  qed
  have g2: "generate st rnd len = Inl (ValueError
        (''Cannot generate '' @ str_int len @ '' notes with order='' @ str_nat (order st) @ ''.''))
      \<longleftrightarrow> model st \<noteq> [] \<and> len \<le> int (order st)"
  proof
    assume "generate st rnd len = Inl (ValueError
        (''Cannot generate '' @ str_int len @ '' notes with order='' @ str_nat (order st) @ ''.''))"
    from generate_ValueError[OF this] show "model st \<noteq> [] \<and> len \<le> int (order st)"
      by (auto simp: empty_model_error_def)
  next
    assume "model st \<noteq> [] \<and> len \<le> int (order st)"
    then show "generate st rnd len = Inl (ValueError
        (''Cannot generate '' @ str_int len @ '' notes with order='' @ str_nat (order st) @ ''.''))"
      by (simp add: generate_def generate_error_def)
  qed
  have g3: "\<forall>msg. generate st rnd len = Inl (ValueError msg) \<longrightarrow>
      model st = [] \<or> len \<le> int (order st)"
    using generate_ValueError by blast
  have g4: "(\<exists>e. generate st rnd len = Inl e) \<longleftrightarrow> model st = [] \<or> len \<le> int (order st)"
    if wf: "wf_table (order st) (model st)" and pos: "0 < order st"
  proof
    assume "\<exists>e. generate st rnd len = Inl e"
    then show "model st = [] \<or> len \<le> int (order st)"
      using generate_ok[OF wf pos, of len rnd] by fastforce
  next
    assume "model st = [] \<or> len \<le> int (order st)"
    then show "\<exists>e. generate st rnd len = Inl e"
      by (auto simp: generate_def)
  qed
  from t1 t2 g1 g2 g3 g4 show ?thesis by blast
qed

theorem train_generate_errors_witness:
  "train example_chain [((60, 100, 0), (60, 0, 10))]
     = Inl (ValueError ''Cannot train MarkovChain(order=1) on sequence of length=1.'') \<and>
   generate example_chain (\<lambda>j. j) 1
     = Inl (ValueError ''Cannot generate 1 notes with order=1.'') \<and>
   generate (init 1 :: note_pair markov_chain) (\<lambda>j. j) 5
     = Inl (ValueError ''The Markov model is empty. Train it first.'')"
proof -
  have a: "train example_chain [((60, 100, 0), (60, 0, 10))]
     = Inl (ValueError ''Cannot train MarkovChain(order=1) on sequence of length=1.'')"
    using train_generate_errors[of example_chain "[((60, 100, 0), (60, 0, 10))]" "\<lambda>j. j" 1]
    by (simp add: example_chain_def str_nat.simps digit_char_def)
  have b: "generate example_chain (\<lambda>j. j) 1
     = Inl (ValueError ''Cannot generate 1 notes with order=1.'')"
    using train_generate_errors[of example_chain "[((60, 100, 0), (60, 0, 10))]" "\<lambda>j. j" 1]
    by (simp add: example_chain_def str_nat.simps str_int_def digit_char_def)
  have c: "generate (init 1 :: note_pair markov_chain) (\<lambda>j. j) 5
     = Inl (ValueError ''The Markov model is empty. Train it first.'')"
    using train_generate_errors[of "init 1 :: note_pair markov_chain" "[]" "\<lambda>j. j" 5]
    by (simp add: init_def)
  from a b c show ?thesis by blast
qed

text \<open>
  The claim as first worded fails twice. On an empty table a length of 0, which is at most
  the order, gives the empty-model error and not the length error; and the message of
  \<^verbatim>\<open>train\<close> for order 2 names 2 and the length 1, not the minimum 3.
\<close>

theorem train_generate_errors_counterexample:
  "generate (init 1 :: note_pair markov_chain) (\<lambda>j. j) 0
     = Inl (ValueError ''The Markov model is empty. Train it first.'') \<and>
   (0 :: int) \<le> int (order (init 1 :: note_pair markov_chain)) \<and>
   generate (init 1 :: note_pair markov_chain) (\<lambda>j. j) 0
     \<noteq> Inl (ValueError ''Cannot generate 0 notes with order=1.'') \<and>
   train (init 2) [((60, 100, 0), (60, 0, 10)) :: note_pair]
     = Inl (ValueError ''Cannot train MarkovChain(order=2) on sequence of length=1.'') \<and>
   CHR ''3'' \<notin> set ''Cannot train MarkovChain(order=2) on sequence of length=1.''"
  by (simp add: generate_def train_def init_def empty_model_error_def train_error_def
      str_nat.simps digit_char_def)

section \<open>Properties of the event pairer and the serializer\<close>

lemma first_off_find:
  "first_off n ms = map_option fields (find (is_end_for n) ms)"
  by (induction n ms rule: first_off.induct) auto

lemma spec_end_Cons: "spec_end d (m # ms) (Suc i) = spec_end d ms i"
  by (simp add: spec_end_def)

lemma upt_Suc_shift: "[0..<Suc n] = 0 # map Suc [0..<n]"
  by (simp add: upt_conv_Cons map_Suc_upt del: upt_Suc)

lemma spec_pairs_Cons:
  "spec_pairs d (m # ms) =
     (if is_begin m then [(fields m, spec_end d (m # ms) 0)] else []) @ spec_pairs d ms"
proof -
  have "filter (\<lambda>i. is_begin ((m # ms) ! i)) [0..<length (m # ms)]
          = (if is_begin m then [0] else [])
              @ map Suc (filter (\<lambda>i. is_begin (ms ! i)) [0..<length ms])"
    by (simp add: upt_Suc_shift filter_map comp_def del: upt_Suc)
  then show ?thesis
    by (simp add: spec_pairs_def spec_end_Cons comp_def del: upt_Suc)
qed

lemma spec_pairs_Nil: "spec_pairs d [] = []"
  by (simp add: spec_pairs_def)

lemma pair_track_eq_spec: "pair_track d evs = spec_pairs d evs"
  by (induction d evs rule: pair_track.induct)
     (auto simp: spec_pairs_Nil spec_pairs_Cons spec_end_def first_off_find split: option.splits)

lemma length_pair_track: "length (pair_track d evs) = length (filter is_begin evs)"
  by (induction d evs rule: pair_track.induct) auto

text \<open>
  Claim C4. The pairer gives exactly what the specification words: one pair per begin
  event (a \<^verbatim>\<open>note_on\<close> of positive velocity), in the order of the input, each carrying
  the fields of its begin event and of the first later event of the unchanged input that
  is an end for its pitch (so one end event may close several begins), or the synthesized
  end \<open>(pitch, 0, default_off_time)\<close> when there is none; the empty input gives the empty
  output; a file's pairs are those of its tracks in order; the default of
  \<^verbatim>\<open>default_off_time\<close> is 480.
\<close>

theorem pair_track_spec:
  "pair_track d evs = spec_pairs d evs \<and>
   length (pair_track d evs) = length (filter is_begin evs) \<and>
   map fst (pair_track d evs) = map fields (filter is_begin evs) \<and>
   pair_track d [] = [] \<and>
   extract_notes mid d = concat (map (spec_pairs d) (tracks mid)) \<and>
   extract_notes_default mid = extract_notes mid 480"
proof -
  have "map fst (pair_track d evs) = map fields (filter is_begin evs)"
    by (induction d evs rule: pair_track.induct) auto
  moreover have "pair_track d = spec_pairs d"
    by (rule ext) (rule pair_track_eq_spec)
  then have "extract_notes mid d = concat (map (spec_pairs d) (tracks mid))"
    by (simp add: extract_notes_def)
  ultimately show ?thesis
    by (simp add: pair_track_eq_spec [symmetric] length_pair_track extract_notes_default_def)
qed

theorem pair_track_spec_witness:
  "pair_track 480 [Note_on 60 100 0, Note_off 60 0 10, Note_on 64 90 5, Note_off 64 0 15]
     = [((60, 100, 0), (60, 0, 10)), ((64, 90, 5), (64, 0, 15))] \<and>
   extract_notes_default \<lparr>ticks_per_beat = 480, tracks = [[Note_on 60 100 0]]\<rparr>
     = [((60, 100, 0), (60, 0, 480))] \<and>
   pair_track 480 [Note_on 60 100 0, Note_on 60 90 3, Other_message ''control_change'' 2,
                   Note_on 60 0 10, Note_on 64 90 5, Set_tempo 500000 1, Note_off 62 0 3]
     = [((60, 100, 0), (60, 0, 10)), ((60, 90, 3), (60, 0, 10)), ((64, 90, 5), (64, 0, 480))]"
proof -
  have a: "spec_pairs 480 [Note_on 60 100 0, Note_off 60 0 10, Note_on 64 90 5, Note_off 64 0 15]
     = [((60, 100, 0), (60, 0, 10)), ((64, 90, 5), (64, 0, 15))]"
    by code_simp
  have b: "concat (map (spec_pairs 480) (tracks \<lparr>ticks_per_beat = 480, tracks = [[Note_on 60 100 0]]\<rparr>))
     = [((60, 100, 0), (60, 0, 480))]"
    by code_simp
  have c: "spec_pairs 480 [Note_on 60 100 0, Note_on 60 90 3, Other_message ''control_change'' 2,
                   Note_on 60 0 10, Note_on 64 90 5, Set_tempo 500000 1, Note_off 62 0 3]
     = [((60, 100, 0), (60, 0, 10)), ((60, 90, 3), (60, 0, 10)), ((64, 90, 5), (64, 0, 480))]"
    by code_simp
  from a b c show ?thesis
    using pair_track_spec[of 480 "[Note_on 60 100 0, Note_off 60 0 10, Note_on 64 90 5, Note_off 64 0 15]"
            "\<lparr>ticks_per_beat = 480, tracks = [[Note_on 60 100 0]]\<rparr>"]
          pair_track_spec[of 480 "[Note_on 60 100 0, Note_on 60 90 3, Other_message ''control_change'' 2,
                   Note_on 60 0 10, Note_on 64 90 5, Set_tempo 500000 1, Note_off 62 0 3]"]
    by metis
qed

lemma copy_tempo_find:
  "copy_tempo ms = (case find is_tempo ms of
                      None \<Rightarrow> Set_tempo (bpm2tempo 120) 0
                    | Some m \<Rightarrow> (case m of Set_tempo tempo t \<Rightarrow> Set_tempo tempo 0 | _ \<Rightarrow> m))"
  by (induction ms rule: copy_tempo.induct) auto

lemma note_messages_same_pitch:
  "same_pitch p \<Longrightarrow>
   note_messages p = (case p of ((n, v, t), (n2, v2, t2)) \<Rightarrow> [Note_on n v t, Note_off n2 v2 t2])"
  by (cases p rule: same_pitch.cases) simp

text \<open>
  Claim C3. For an original file with a first track, and note pairs that satisfy the
  invariant of the data model (both members have the same pitch), \<^verbatim>\<open>save_melody\<close> hands
  over one track: first the tempo event, which is the first \<^verbatim>\<open>set_tempo\<close> of the
  original's first track with its delta-time set to 0, or the directive for 120 beats per
  minute (500000 microseconds per beat) with delta-time 0 when that track has none; then,
  for each pair in input order, a \<^verbatim>\<open>note_on\<close> with the stored pitch, velocity and
  delta-time of the begin member directly followed by a \<^verbatim>\<open>note_off\<close> with those of the
  end member. No time is recomputed, and \<^verbatim>\<open>ticks_per_beat\<close> is copied.
\<close>

theorem save_melody_layout:
  assumes "tracks original_midi = track0 # others" and "list_all same_pitch pairs"
  shows "\<exists>out tempo_event.
           save_melody pairs original_midi = Inr out \<and>
           ticks_per_beat out = ticks_per_beat original_midi \<and>
           tracks out =
             [tempo_event #
                concat (map (\<lambda>((n, v, t), (n2, v2, t2)). [Note_on n v t, Note_off n2 v2 t2]) pairs)] \<and>
           (\<forall>tempo t. find is_tempo track0 = Some (Set_tempo tempo t)
                \<longrightarrow> tempo_event = Set_tempo tempo 0) \<and>
           (find is_tempo track0 = None \<longrightarrow> tempo_event = Set_tempo 500000 0)"
proof -
  have eq: "map note_messages pairs
          = map (\<lambda>((n, v, t), (n2, v2, t2)). [Note_on n v t, Note_off n2 v2 t2]) pairs"
    using assms(2) by (induction pairs) (auto simp: note_messages_same_pitch)
  have "save_melody pairs original_midi =
          Inr \<lparr>ticks_per_beat = ticks_per_beat original_midi,
               tracks = [copy_tempo track0 #
                 concat (map (\<lambda>((n, v, t), (n2, v2, t2)). [Note_on n v t, Note_off n2 v2 t2]) pairs)]\<rparr>"
    by (simp only: save_melody_def assms(1) eq list.case)
  moreover have "\<forall>tempo t. find is_tempo track0 = Some (Set_tempo tempo t)
                \<longrightarrow> copy_tempo track0 = Set_tempo tempo 0"
    by (simp add: copy_tempo_find)
  moreover have "find is_tempo track0 = None \<longrightarrow> copy_tempo track0 = Set_tempo 500000 0"
    by (simp add: copy_tempo_find bpm2tempo_def)
  ultimately show ?thesis by simp
qed

theorem save_melody_layout_witness:
  "save_melody [((60, 100, 0), (60, 0, 10)), ((64, 90, 5), (64, 0, 15))]
     \<lparr>ticks_per_beat = 96,
      tracks = [[Other_message ''track_name'' 0, Set_tempo 400000 7, Set_tempo 300000 9], []]\<rparr>
     = Inr \<lparr>ticks_per_beat = 96,
            tracks = [[Set_tempo 400000 0, Note_on 60 100 0, Note_off 60 0 10,
                       Note_on 64 90 5, Note_off 64 0 15]]\<rparr> \<and>
   save_melody [((60, 100, 0), (60, 0, 10))]
     \<lparr>ticks_per_beat = 96, tracks = [[Other_message ''track_name'' 0]]\<rparr>
     = Inr \<lparr>ticks_per_beat = 96,
            tracks = [[Set_tempo 500000 0, Note_on 60 100 0, Note_off 60 0 10]]\<rparr>"
proof -
  have a: "save_melody [((60, 100, 0), (60, 0, 10)), ((64, 90, 5), (64, 0, 15))]
     \<lparr>ticks_per_beat = 96,
      tracks = [[Other_message ''track_name'' 0, Set_tempo 400000 7, Set_tempo 300000 9], []]\<rparr>
     = Inr \<lparr>ticks_per_beat = 96,
            tracks = [[Set_tempo 400000 0, Note_on 60 100 0, Note_off 60 0 10,
                       Note_on 64 90 5, Note_off 64 0 15]]\<rparr>"
    using save_melody_layout[of "\<lparr>ticks_per_beat = 96,
      tracks = [[Other_message ''track_name'' 0, Set_tempo 400000 7, Set_tempo 300000 9], []]\<rparr>"
      "[Other_message ''track_name'' 0, Set_tempo 400000 7, Set_tempo 300000 9]" "[[]]"
      "[((60, 100, 0), (60, 0, 10)), ((64, 90, 5), (64, 0, 15))]"]
    by auto
  have b: "save_melody [((60, 100, 0), (60, 0, 10))]
     \<lparr>ticks_per_beat = 96, tracks = [[Other_message ''track_name'' 0]]\<rparr>
     = Inr \<lparr>ticks_per_beat = 96,
            tracks = [[Set_tempo 500000 0, Note_on 60 100 0, Note_off 60 0 10]]\<rparr>"
    using save_melody_layout[of "\<lparr>ticks_per_beat = 96, tracks = [[Other_message ''track_name'' 0]]\<rparr>"
      "[Other_message ''track_name'' 0]" "[]" "[((60, 100, 0), (60, 0, 10))]"]
    by auto
  from a b show ?thesis by blast
qed

lemma matched_stream_round_trip:
  "matched_stream evs \<Longrightarrow> concat (map note_messages (pair_track d evs)) = evs"
  by (induction evs rule: matched_stream.induct) auto

text \<open>
  Claim C8. For an already-paired stream (every begin event directly followed by an
  explicit end event of its pitch), serializing what the pairer extracts from it gives
  back, after the tempo event, exactly the events of the stream.
\<close>

theorem serializer_round_trip:
  assumes "matched_stream evs" and "tracks original_midi = track0 # others"
  shows "\<exists>out tempo_event.
           save_melody (extract_notes \<lparr>ticks_per_beat = tpb, tracks = [evs]\<rparr> d) original_midi
             = Inr out \<and>
           tracks out = [tempo_event # evs]"
  using assms by (simp add: save_melody_def extract_notes_def matched_stream_round_trip)

theorem serializer_round_trip_witness:
  "matched_stream [Note_on 60 100 0, Note_off 60 0 10, Note_on 64 90 5, Note_off 64 0 15] \<and>
   save_melody
     (extract_notes
        \<lparr>ticks_per_beat = 96,
         tracks = [[Note_on 60 100 0, Note_off 60 0 10, Note_on 64 90 5, Note_off 64 0 15]]\<rparr> 480)
     \<lparr>ticks_per_beat = 96, tracks = [[Set_tempo 400000 7]]\<rparr>
     = Inr \<lparr>ticks_per_beat = 96,
            tracks = [[Set_tempo 400000 0,
                       Note_on 60 100 0, Note_off 60 0 10, Note_on 64 90 5, Note_off 64 0 15]]\<rparr>"
proof -
  have m: "matched_stream [Note_on 60 100 0, Note_off 60 0 10, Note_on 64 90 5, Note_off 64 0 15]"
    by simp
  have t: "tracks \<lparr>ticks_per_beat = 96, tracks = [[Set_tempo 400000 7]]\<rparr> = [Set_tempo 400000 7] # []"
    by simp
  from serializer_round_trip[OF m t, of 96 480] show ?thesis
    using m by (auto simp: save_melody_def)
qed

section \<open>One iteration of generation\<close>

lemma count_positions: "length (filter (\<lambda>i. xs ! i = x) [0..<length xs]) = count_list xs x"
proof (induction xs rule: rev_induct)
  case Nil
  then show ?case by simp
next
  case (snoc a xs)
  have "filter (\<lambda>i. (xs @ [a]) ! i = x) [0..<length xs] = filter (\<lambda>i. xs ! i = x) [0..<length xs]"
    by (rule filter_cong[OF refl]) (simp add: nth_append)
  with snoc show ?case by simp
qed

lemma draws_giving_random_choice:
  "draws_giving (random_choice xs) (length xs) (Inr x) = count_list xs x"
proof -
  have "filter (\<lambda>r. random_choice xs r = Inr x) [0..<length xs]
          = filter (\<lambda>i. xs ! i = x) [0..<length xs]"
    by (rule filter_cong[OF refl]) (auto simp: random_choice_def)
  then show ?thesis by (simp add: draws_giving_def count_positions)
qed

lemma count_list_distinct: "distinct xs \<Longrightarrow> x \<in> set xs \<Longrightarrow> count_list xs x = 1"
  by (induction xs) (auto simp: count_list_0_iff)

lemma upt_add_split: "[0..<w + n] = [0..<w] @ map (\<lambda>r. r + w) [0..<n]"
proof -
  have "[0..<w + n] = [0..<w] @ [w..<w + n]"
    by (rule upt_add_eq_append) simp
  moreover have "map (\<lambda>r. r + w) [0..<n] = [w..<n + w]"
    by (rule map_add_upt)
  ultimately show ?thesis by (simp add: add.commute)
qed

lemma bisect_pick_count:
  "distinct (map fst c) \<Longrightarrow>
   length (filter (\<lambda>r. map fst c ! bisect_cum (map snd c) r = y) [0..<sum_list (map snd c)])
     = counter_get c y"
proof (induction c)
  case Nil
  then show ?case by (simp add: counter_get_def)
next
  case (Cons p c)
  obtain x w where p: "p = (x, w)" by (cases p)
  let ?T = "sum_list (map snd c)"
  have low: "filter (\<lambda>r. map fst (p # c) ! bisect_cum (map snd (p # c)) r = y) [0..<w]
               = (if x = y then [0..<w] else [])"
  proof -
    have "filter (\<lambda>r. map fst (p # c) ! bisect_cum (map snd (p # c)) r = y) [0..<w]
            = filter (\<lambda>r. x = y) [0..<w]"
    proof (rule filter_cong[OF refl])
      fix r assume "r \<in> set [0..<w]"
      then have "bisect_cum (map snd (p # c)) r = 0"
        by (cases c) (simp_all add: p)
      then show "(map fst (p # c) ! bisect_cum (map snd (p # c)) r = y) = (x = y)"
        by (simp add: p)
    qed
    then show ?thesis by simp
  qed
  have high: "filter (\<lambda>r. map fst (p # c) ! bisect_cum (map snd (p # c)) (r + w) = y) [0..<?T]
               = filter (\<lambda>r. map fst c ! bisect_cum (map snd c) r = y) [0..<?T]"
  proof (cases c)
    case Nil
    then show ?thesis by simp
  next
    case (Cons q c')
    show ?thesis by (rule filter_cong[OF refl]) (simp add: p Cons)
  qed
  have "length (filter (\<lambda>r. map fst (p # c) ! bisect_cum (map snd (p # c)) r = y)
                  [0..<sum_list (map snd (p # c))])
          = (if x = y then w else 0)
            + length (filter (\<lambda>r. map fst c ! bisect_cum (map snd c) r = y) [0..<?T])"
    using low high by (simp add: p upt_add_split filter_map comp_def del: upt_Suc)
  also have "\<dots> = (if x = y then w else 0) + counter_get c y"
    using Cons by simp
  also have "\<dots> = counter_get (p # c) y"
  proof (cases "x = y")
    case True
    with Cons.prems have "map_of c y = None"
      by (simp add: p map_of_eq_None_iff)
    with True show ?thesis by (simp add: p counter_get_def)
  next
    case False
    then show ?thesis by (simp add: p counter_get_def)
  qed
  finally show ?case .
qed

lemma draws_giving_random_choices:
  assumes "distinct (map fst c)"
  shows "draws_giving (random_choices (map fst c) (map snd c)) (sum_list (map snd c)) y
           = counter_get c y"
proof -
  have "filter (\<lambda>r. random_choices (map fst c) (map snd c) r = y) [0..<sum_list (map snd c)]
          = filter (\<lambda>r. map fst c ! bisect_cum (map snd c) r = y) [0..<sum_list (map snd c)]"
    by (rule filter_cong[OF refl]) (simp add: random_choices_def)
  then show ?thesis using bisect_pick_count[OF assms] by (simp add: draws_giving_def)
qed

lemma counter_get_pos:
  assumes "wf_counter c" "x \<in> fst ` set c"
  shows "0 < counter_get c x"
proof -
  from assms(2) obtain n where n: "(x, n) \<in> set c" by auto
  with assms(1) have "map_of c x = Some n" "0 < n"
    by (auto simp: wf_counter_def list_all_iff)
  then show ?thesis by (simp add: counter_get_def)
qed

text \<open>
  Claim C5. One iteration of the loop, on a table of the data model's shape with a
  positive order. If the current context maps to a non-empty counter, the element appended
  is the weighted choice among its successors; it has a positive count, and of the
  \<open>total\<close> equally likely draws exactly \<open>count y\<close> give successor \<open>y\<close>, so each
  successor comes with probability proportional to its count. If the context is not a key
  or maps to the empty counter, a key is chosen (each key by exactly one of the
  \<open>length states\<close> draws), then one of its \<open>order\<close> elements (each position by exactly
  one of the draws, so an element as often as it stands in the context), and that element
  alone is appended. In both cases the new current context is the trailing \<open>order\<close>
  elements of the extended output.
\<close>

theorem gen_step_iteration:
  assumes wf: "wf_table (order (chain g)) (model (chain g))"
    and pos: "0 < order (chain g)"
    and st: "states = map fst (model (chain g))" "states \<noteq> []"
  shows
   "(\<forall>c. dict_get (model (chain g)) (current_state g) = Some c \<and> c \<noteq> [] \<longrightarrow>
       (\<exists>x. x = random_choices (map fst c) (map snd c) (rnd (draws g)) \<and>
            0 < counter_get c x \<and>
            gen_step states rnd g =
              Inr (g\<lparr>draws := draws g + 1,
                     current_state := last_n (order (chain g)) (result g @ [x]),
                     result := result g @ [x]\<rparr>)) \<and>
       (\<forall>y. draws_giving (random_choices (map fst c) (map snd c)) (sum_list (map snd c)) y
              = counter_get c y)) \<and>
    (dict_get (model (chain g)) (current_state g) = None \<or>
     dict_get (model (chain g)) (current_state g) = Some [] \<longrightarrow>
       (\<exists>cs x. random_choice states (rnd (draws g)) = Inr cs \<and> cs \<in> set states \<and>
               length cs = order (chain g) \<and>
               random_choice cs (rnd (draws g + 1)) = Inr x \<and> x \<in> set cs \<and>
               gen_step states rnd g =
                 Inr (g\<lparr>draws := draws g + 2,
                        current_state := last_n (order (chain g)) (result g @ [x]),
                        result := result g @ [x]\<rparr>)) \<and>
       (\<forall>k \<in> set states. draws_giving (random_choice states) (length states) (Inr k) = 1) \<and>
       (\<forall>cs \<in> set states. \<forall>x.
           draws_giving (random_choice cs) (length cs) (Inr x) = count_list cs x))"
proof (intro conjI allI impI)
  fix c
  assume a: "dict_get (model (chain g)) (current_state g) = Some c \<and> c \<noteq> []"
  then have look: "map_of (model (chain g)) (current_state g) = Some c" and ne: "c \<noteq> []"
    by (simp_all add: dict_get_def)
  have wfc: "wf_counter c" using wf look wf_counter_lookup by blast
  let ?x = "random_choices (map fst c) (map snd c) (rnd (draws g))"
  have "?x \<in> set (map fst c)"
    by (rule random_choices_in) (use ne in simp_all)
  then have cp: "0 < counter_get c ?x" using wfc counter_get_pos by fastforce
  have tot: "sum_list (map snd c) \<noteq> 0"
    using wf_counter_total[OF wfc ne] by linarith
  have "gen_step states rnd g =
          Inr (g\<lparr>draws := draws g + 1,
                 current_state := last_n (order (chain g)) (result g @ [?x]),
                 result := result g @ [?x]\<rparr>)"
    using a tot
    by (simp add: gen_step_def truthy_def append_note_def Let_def del: sum_list_eq_0_iff)
  with cp show "\<exists>x. x = random_choices (map fst c) (map snd c) (rnd (draws g)) \<and>
            0 < counter_get c x \<and>
            gen_step states rnd g =
              Inr (g\<lparr>draws := draws g + 1,
                     current_state := last_n (order (chain g)) (result g @ [x]),
                     result := result g @ [x]\<rparr>)"
    by blast
  fix y
  show "draws_giving (random_choices (map fst c) (map snd c)) (sum_list (map snd c)) y
          = counter_get c y"
    by (rule draws_giving_random_choices) (use wfc in \<open>simp add: wf_counter_def\<close>)
next
  assume d: "dict_get (model (chain g)) (current_state g) = None \<or>
     dict_get (model (chain g)) (current_state g) = Some []"
  then have nt: "\<not> truthy (dict_get (model (chain g)) (current_state g))"
    by (auto simp: truthy_def)
  obtain cs where cs: "random_choice states (rnd (draws g)) = Inr cs"
    using random_choice_ok[OF st(2)] by blast
  then have mem: "cs \<in> set states" by (rule random_choice_in)
  then have len: "length cs = order (chain g)"
    using wf st(1) by (auto simp: wf_table_def list_all_iff)
  then have "cs \<noteq> []" using pos by auto
  then obtain x where x: "random_choice cs (rnd (draws g + 1)) = Inr x"
    using random_choice_ok by blast
  then have xm: "x \<in> set cs" by (rule random_choice_in)
  have "gen_step states rnd g =
          Inr (g\<lparr>draws := draws g + 2,
                 current_state := last_n (order (chain g)) (result g @ [x]),
                 result := result g @ [x]\<rparr>)"
    using nt cs x by (simp add: gen_step_def append_note_def Let_def)
  with cs mem len x xm show "\<exists>cs x. random_choice states (rnd (draws g)) = Inr cs \<and> cs \<in> set states \<and>
               length cs = order (chain g) \<and>
               random_choice cs (rnd (draws g + 1)) = Inr x \<and> x \<in> set cs \<and>
               gen_step states rnd g =
                 Inr (g\<lparr>draws := draws g + 2,
                        current_state := last_n (order (chain g)) (result g @ [x]),
                        result := result g @ [x]\<rparr>)"
    by blast
next
  have dist: "distinct states" using wf st(1) by (simp add: wf_table_def)
  show "\<forall>k \<in> set states. draws_giving (random_choice states) (length states) (Inr k) = 1"
    using dist by (simp add: draws_giving_random_choice count_list_distinct)
next
  show "\<forall>cs \<in> set states. \<forall>x.
           draws_giving (random_choice cs) (length cs) (Inr x) = count_list cs x"
    by (simp add: draws_giving_random_choice)
qed

theorem gen_step_iteration_witness:
  "gen_step (map fst (model example_chain2)) (\<lambda>j. j + 2)
     \<lparr>chain = example_chain2, draws = 1,
      current_state = [((64, 90, 5), (64, 0, 15)), ((67, 80, 0), (67, 0, 480))],
      result = [((64, 90, 5), (64, 0, 15)), ((67, 80, 0), (67, 0, 480))]\<rparr>
   = Inr \<lparr>chain = example_chain2, draws = 3,
          current_state = [((67, 80, 0), (67, 0, 480)), ((60, 100, 0), (60, 0, 10))],
          result = [((64, 90, 5), (64, 0, 15)), ((67, 80, 0), (67, 0, 480)),
                    ((60, 100, 0), (60, 0, 10))]\<rparr> \<and>
   gen_step (map fst (model example_chain2)) (\<lambda>j. j + 2)
     \<lparr>chain = example_chain2, draws = 5,
      current_state = [((60, 100, 0), (60, 0, 10)), ((64, 90, 5), (64, 0, 15))],
      result = [((60, 100, 0), (60, 0, 10)), ((64, 90, 5), (64, 0, 15))]\<rparr>
   = Inr \<lparr>chain = example_chain2, draws = 6,
          current_state = [((64, 90, 5), (64, 0, 15)), ((67, 80, 0), (67, 0, 480))],
          result = [((60, 100, 0), (60, 0, 10)), ((64, 90, 5), (64, 0, 15)),
                    ((67, 80, 0), (67, 0, 480))]\<rparr> \<and>
   draws_giving
     (random_choices [((60, 100, 0), (60, 0, 10)), ((67, 80, 0), (67, 0, 480)) :: note_pair] [1, 1])
     2 ((67, 80, 0), (67, 0, 480)) = 1"
proof -
  let ?b = "((64, 90, 5), (64, 0, 15)) :: note_pair"
  let ?a = "((60, 100, 0), (60, 0, 10)) :: note_pair"
  let ?c = "((67, 80, 0), (67, 0, 480)) :: note_pair"
  let ?states = "map fst (model example_chain2)"
  let ?g1 = "\<lparr>chain = example_chain2, draws = 1, current_state = [?b, ?c], result = [?b, ?c]\<rparr>"
  let ?g2 = "\<lparr>chain = example_chain2, draws = 5, current_state = [?a, ?b], result = [?a, ?b]\<rparr>"
  have wf1: "wf_table (order (chain ?g1)) (model (chain ?g1))"
    by (simp add: wf_table_def wf_counter_def example_chain2_def)
  have pos1: "0 < order (chain ?g1)" by (simp add: example_chain2_def)
  have st1: "?states = map fst (model (chain ?g1))" by simp
  have wf2: "wf_table (order (chain ?g2)) (model (chain ?g2))"
    by (simp add: wf_table_def wf_counter_def example_chain2_def)
  have pos2: "0 < order (chain ?g2)" by (simp add: example_chain2_def)
  have st2: "?states = map fst (model (chain ?g2))" by simp
  have ne: "?states \<noteq> []" by (simp add: example_chain2_def)
  have d1: "dict_get (model (chain ?g1)) (current_state ?g1) = Some []"
    by code_simp
  have d2: "dict_get (model (chain ?g2)) (current_state ?g2) = Some [(?a, 1), (?c, 1)]"
    by code_simp
  have r1: "random_choice ?states ((\<lambda>j. j + 2) (draws ?g1)) = Inr [?a, ?b]"
    by code_simp
  have r2: "random_choice [?a, ?b] ((\<lambda>j. j + 2) (draws ?g1 + 1)) = Inr ?a"
    by code_simp
  have r3: "random_choices (map fst [(?a, 1), (?c, 1)]) (map snd [(?a, 1::nat), (?c, 1)])
              ((\<lambda>j. j + 2) (draws ?g2)) = ?c"
    by code_simp
  have l1: "last_n (order (chain ?g1)) (result ?g1 @ [?a]) = [?c, ?a]"
    by code_simp
  have l2: "last_n (order (chain ?g2)) (result ?g2 @ [?c]) = [?b, ?c]"
    by code_simp
  note s1 = gen_step_iteration[OF wf1 pos1 st1 ne, of "\<lambda>j. j + 2"]
  note s2 = gen_step_iteration[OF wf2 pos2 st2 ne, of "\<lambda>j. j + 2"]
  from s1[THEN conjunct2, THEN mp, OF disjI2, OF d1, THEN conjunct1] obtain cs x where
    "random_choice ?states ((\<lambda>j. j + 2) (draws ?g1)) = Inr cs"
    "random_choice cs ((\<lambda>j. j + 2) (draws ?g1 + 1)) = Inr x"
    "gen_step ?states (\<lambda>j. j + 2) ?g1 =
        Inr (?g1\<lparr>draws := draws ?g1 + 2,
                 current_state := last_n (order (chain ?g1)) (result ?g1 @ [x]),
                 result := result ?g1 @ [x]\<rparr>)"
    by blast
  with r1 r2 have "gen_step ?states (\<lambda>j. j + 2) ?g1 =
        Inr (?g1\<lparr>draws := draws ?g1 + 2,
                 current_state := last_n (order (chain ?g1)) (result ?g1 @ [?a]),
                 result := result ?g1 @ [?a]\<rparr>)"
    by simp
  then have a: "gen_step ?states (\<lambda>j. j + 2) ?g1 =
        Inr \<lparr>chain = example_chain2, draws = 3, current_state = [?c, ?a],
             result = [?b, ?c, ?a]\<rparr>"
    unfolding l1 by simp
  have nz: "[(?a, 1::nat), (?c, 1)] \<noteq> []" by simp
  note w2 = s2[THEN conjunct1, THEN spec, THEN mp, OF conjI, OF d2 nz]
  note w = w2[THEN conjunct2, THEN spec, of ?c]
  from w2[THEN conjunct1] r3 l2 have b: "gen_step ?states (\<lambda>j. j + 2) ?g2 =
        Inr \<lparr>chain = example_chain2, draws = 6, current_state = [?b, ?c],
             result = [?a, ?b, ?c]\<rparr>"
    by auto
  have c: "draws_giving (random_choices [?a, ?c] [1, 1]) 2 ?c = 1"
    using w by (simp add: counter_get_def numeral_2_eq_2)
  from a b c show ?thesis by blast
qed

section \<open>Outside the data model\<close>

text \<open>
  The program checks neither the order nor the shape of a pair. With order 0 the tail
  registered by \<^verbatim>\<open>train\<close> is the whole sequence (\<^verbatim>\<open>sequence[-0:]\<close>), and
  \<^verbatim>\<open>generate\<close> ends in \<^verbatim>\<open>IndexError\<close> when the escape picks the empty context. For a
  pair whose members differ in pitch, \<^verbatim>\<open>save_melody\<close> writes the \<^verbatim>\<open>note_off\<close> with the
  pitch of the begin member.
\<close>

lemma order_zero_example:
  "train (init 0) [((60, 100, 0), (60, 0, 10)), ((64, 90, 5), (64, 0, 15)) :: note_pair]
     = Inr \<lparr>order = 0,
            model =
              [([], [(((60, 100, 0), (60, 0, 10)), 1), (((64, 90, 5), (64, 0, 15)), 1)]),
               ([((60, 100, 0), (60, 0, 10)), ((64, 90, 5), (64, 0, 15))], [])]\<rparr> \<and>
   generate
     \<lparr>order = 0,
      model =
        [([], [(((60, 100, 0), (60, 0, 10)), 1), (((64, 90, 5), (64, 0, 15)), 1 :: nat)]),
         ([((60, 100, 0), (60, 0, 10)), ((64, 90, 5), (64, 0, 15)) :: note_pair], [])]\<rparr>
     (\<lambda>j. 0) 2 = Inl IndexError"
  by code_simp

lemma unequal_pitch_example:
  "save_melody [((60, 100, 0), (61, 0, 10))] \<lparr>ticks_per_beat = 96, tracks = [[]]\<rparr>
     = Inr \<lparr>ticks_per_beat = 96,
            tracks = [[Set_tempo 500000 0, Note_on 60 100 0, Note_off 60 0 10]]\<rparr>"
  by code_simp

text \<open>
  A stream that is not in the already-paired form is not written back as it was: notes
  that overlap come out one after the other, and an end given as a \<^verbatim>\<open>note_on\<close> of
  velocity 0 comes out as a \<^verbatim>\<open>note_off\<close>.
\<close>

lemma overlapping_notes_example:
  "save_melody
     (extract_notes
        \<lparr>ticks_per_beat = 96,
         tracks = [[Note_on 60 100 0, Note_on 64 90 5, Note_off 60 0 10, Note_on 64 0 15]]\<rparr> 480)
     \<lparr>ticks_per_beat = 96, tracks = [[]]\<rparr>
     = Inr \<lparr>ticks_per_beat = 96,
            tracks = [[Set_tempo 500000 0,
                       Note_on 60 100 0, Note_off 60 0 10, Note_on 64 90 5, Note_off 64 0 15]]\<rparr>"
  by code_simp

end
